theory Spec2Isabelle
  imports Complex_Main "HOL-Library.Word" "HOL-Library.Multiset"
begin

section \<open>Python objects and sample handles\<close>

text \<open>
  The data provider of \<^verbatim>\<open>paddle/gserver/dataproviders/PyDataProvider2.cpp\<close> moves
  Python objects around. A sample is a Python object; the provider holds it through a
  \<^verbatim>\<open>PyObjectPtr\<close>, which may be the null pointer. Floating-point payloads are kept as
  \<^typ>\<open>real\<close>; their rounding is not modelled, no property below depends on it.
\<close>

datatype pyobj = PyInt int | PyFloat real | PySeq "pyobj list" | PyNone

type_synonym handle = "pyobj option"

type_synonym size_t = "64 word"

type_synonym int32 = "32 word"

datatype error =
    NegativeSize
  | NullPool
  | NullSample
  | BadBatchSize
  | PyCallFailed
  | UnexpectedBranch
  | NotImplemented
  | BadCast
  | NotASequence
  | OutOfRange
  | Uninitialised
  | NullDeref
  | WrongMatrix
  | WouldBlock

text \<open>
  Modelled from the spec: \<^verbatim>\<open>py::castInt\<close> lives in \<^verbatim>\<open>paddle/utils/PythonUtil.h\<close>,
  which is not among the sources. It accepts Python ints and longs, reads them as a C
  \<^verbatim>\<open>long\<close> (\<^verbatim>\<open>-1\<close> when the value does not fit) and converts to the target
  integer type; for every other object, the null pointer included, it clears the
  \<^verbatim>\<open>ok\<close> flag.
\<close>

definition asLong :: "int \<Rightarrow> int" where
  "asLong n = (if - (2 ^ 63) \<le> n \<and> n < 2 ^ 63 then n else - 1)"

definition castInt :: "handle \<Rightarrow> 'a::len word option" where
  "castInt h = (case h of Some (PyInt n) \<Rightarrow> Some (word_of_int (asLong n)) | _ \<Rightarrow> None)"

section \<open>Cache strategies\<close>

definition NO_CACHE :: int where "NO_CACHE = 0"
definition CACHE_PASS_IN_MEM :: int where "CACHE_PASS_IN_MEM = 1"

text \<open>
  \<^verbatim>\<open>IPyDataProviderCache\<close> has two implementations. \<^verbatim>\<open>CacheOnePassInMemory\<close> owns two
  deques, \<^verbatim>\<open>objPool_\<close> (read during a replayed pass) and \<^verbatim>\<open>droppedPool_\<close> (filled
  with the samples of the batches already handed out).
\<close>

datatype cache =
    NoCacheStrategy
  | CacheOnePassInMemory (objPool: "handle list") (droppedPool: "handle list")

definition cache_create :: "int \<Rightarrow> error + cache" where
  "cache_create ct =
     (if ct = NO_CACHE then Inr NoCacheStrategy
      else if ct = CACHE_PASS_IN_MEM then Inr (CacheOnePassInMemory [] [])
      else Inl NotImplemented)"

fun cache_reset :: "cache \<Rightarrow> error + (bool \<times> cache)" where
  "cache_reset NoCacheStrategy = Inr (True, NoCacheStrategy)"
| "cache_reset (CacheOnePassInMemory op dp) =
     (if op = [] \<and> dp = [] then Inr (True, CacheOnePassInMemory op dp)
      else if op = [] then Inr (False, CacheOnePassInMemory dp op)
      else Inl UnexpectedBranch)"

text \<open>\<^verbatim>\<open>drop\<close> returns the cache and the caller's deque, which it always clears.\<close>

fun cache_drop :: "cache \<Rightarrow> handle list \<Rightarrow> cache \<times> handle list" where
  "cache_drop NoCacheStrategy data = (NoCacheStrategy, [])"
| "cache_drop (CacheOnePassInMemory op dp) data = (CacheOnePassInMemory op (dp @ data), [])"

fun cache_load :: "cache \<Rightarrow> handle list option" where
  "cache_load NoCacheStrategy = None"
| "cache_load (CacheOnePassInMemory op dp) = Some op"

text \<open>The deque returned by \<^verbatim>\<open>load\<close> is the cache's own: a draw from it is stored back.\<close>

fun cache_store :: "cache \<Rightarrow> handle list \<Rightarrow> cache" where
  "cache_store NoCacheStrategy pool = NoCacheStrategy"
| "cache_store (CacheOnePassInMemory op dp) pool = CacheOnePassInMemory pool dp"

section \<open>Drawing samples from a pool\<close>

text \<open>
  The optional \<^verbatim>\<open>calc_batch_size\<close> callable maps a sample to a Python object, or fails
  (null result). Without it every sample weighs 1.
\<close>

type_synonym weigher = "(pyobj \<Rightarrow> handle) option"

text \<open>The weight added to \<^verbatim>\<open>bsize\<close> for the sample just drawn (lines 515 to 526).\<close>

definition drawnWeight :: "weigher \<Rightarrow> handle \<Rightarrow> error + size_t" where
  "drawnWeight calc h =
     (case calc of
        None \<Rightarrow> Inr 1
      | Some f \<Rightarrow>
          (case castInt (case h of None \<Rightarrow> None | Some x \<Rightarrow> f x) of
             None \<Rightarrow> Inl BadBatchSize
           | Some w \<Rightarrow> Inr w))"

text \<open>
  One pass through the locked block of the loop (lines 497 to 513): the sample moved to
  \<^verbatim>\<open>data\<close> and the pool left behind. \<open>r\<close> is the value returned by
  \<^verbatim>\<open>ThreadLocalRand::rand()\<close>, a non-negative \<^verbatim>\<open>int\<close>. Indexing outside the deque
  and the remainder by zero are undefined in C++; the model reports them as
  \<^const>\<open>OutOfRange\<close>.
\<close>

definition moveSample :: "bool \<Rightarrow> nat \<Rightarrow> handle list \<Rightarrow> error + (handle \<times> handle list)" where
  "moveSample skip r pool =
     (if skip then
        (let i = 0 in
         if \<not> i < length pool then Inl OutOfRange
         else if pool ! i = None then Inl NullSample
         else Inr (pool ! i, tl pool))
      else
        (if length pool = 0 then Inl OutOfRange
         else
           (let i = r mod length pool in
            if \<not> i < length pool then Inl OutOfRange
            else if pool ! i = None then Inl NullSample
            else
              (let pool' = (if i \<noteq> length pool - 1
                            then pool[i := last pool, length pool - 1 := pool ! i]
                            else pool)
               in Inr (last pool', butlast pool')))))"

lemma moveSample_length:
  "moveSample skip r pool = Inr (h, pool') \<Longrightarrow> Suc (length pool') = length pool"
  by (auto simp: moveSample_def Let_def split: if_splits)

text \<open>
  The loop of lines 496 to 528. \<open>rnd k\<close> is the value of the \<open>k\<close>-th call of
  \<^verbatim>\<open>rand()\<close>; the result carries the pool, the drawn samples, the accumulated
  \<^verbatim>\<open>bsize\<close> and the number of random values used.
\<close>

function drawLoop ::
  "bool \<Rightarrow> weigher \<Rightarrow> (nat \<Rightarrow> nat) \<Rightarrow> size_t \<Rightarrow> nat \<Rightarrow> handle list \<Rightarrow> handle list \<Rightarrow> size_t
     \<Rightarrow> error + (handle list \<times> handle list \<times> size_t \<times> nat)" where
  "drawLoop skip calc rnd sz k pool data bsize =
     (if bsize < sz \<and> pool \<noteq> [] then
        (case moveSample skip (rnd k) pool of
           Inl e \<Rightarrow> Inl e
         | Inr (h, pool') \<Rightarrow>
             (case drawnWeight calc h of
                Inl e \<Rightarrow> Inl e
              | Inr w \<Rightarrow>
                  drawLoop skip calc rnd sz (if skip then k else Suc k)
                    pool' (data @ [h]) (bsize + w)))
      else Inr (pool, data, bsize, k))"
  by pat_completeness auto
termination
  by (relation "measure (\<lambda>(skip, calc, rnd, sz, k, pool, data, bsize). length pool)")
     (auto dest: moveSample_length)

declare drawLoop.simps [simp del]

text \<open>A call starts with an empty \<^verbatim>\<open>data\<close> deque and \<^verbatim>\<open>bsize = 0\<close> (lines 483, 484).\<close>

definition drawSamples ::
  "bool \<Rightarrow> weigher \<Rightarrow> (nat \<Rightarrow> nat) \<Rightarrow> size_t \<Rightarrow> handle list
     \<Rightarrow> error + (handle list \<times> handle list \<times> size_t \<times> nat)" where
  "drawSamples skip calc rnd sz pool = drawLoop skip calc rnd sz 0 pool [] 0"

text \<open>
  The weight of a sample as the loop adds it, and the sum the loop accumulates over a
  list of samples, in \<^verbatim>\<open>size_t\<close> arithmetic.
\<close>

definition weightVal :: "weigher \<Rightarrow> handle \<Rightarrow> size_t" where
  "weightVal calc h = (case drawnWeight calc h of Inl e \<Rightarrow> 0 | Inr w \<Rightarrow> w)"

definition weightSum :: "weigher \<Rightarrow> handle list \<Rightarrow> size_t" where
  "weightSum calc hs = sum_list (map (weightVal calc) hs)"

text \<open>Example inputs: a weigher that returns the sample itself, and two random sources.\<close>

definition selfWeigher :: weigher where
  "selfWeigher = Some (\<lambda>x. Some x)"

definition rndZero :: "nat \<Rightarrow> nat" where
  "rndZero k = 0"

definition rndCount :: "nat \<Rightarrow> nat" where
  "rndCount k = k + 1"

section \<open>Slot headers, arguments and their buffers\<close>

text \<open>
  \<^verbatim>\<open>readPyFields\<close> casts the integers found in the Python slot objects to the two
  enums without a range check, so a header carries the raw integers and the
  \<^verbatim>\<open>default\<close> branches of \<^verbatim>\<open>IFieldScanner::create\<close> stay reachable.
\<close>

definition ST_DENSE :: int where "ST_DENSE = 0"
definition ST_NON_SPARSE_VALUE :: int where "ST_NON_SPARSE_VALUE = 1"
definition ST_SPARSE_VALUE :: int where "ST_SPARSE_VALUE = 2"
definition ST_INDEX :: int where "ST_INDEX = 3"

definition SQT_NONE :: int where "SQT_NONE = 0"
definition SQT_SEQ :: int where "SQT_SEQ = 1"
definition SQT_SUBSEQ :: int where "SQT_SUBSEQ = 2"

record SlotHeader =
  dim :: nat
  slotType :: int
  seqType :: int

text \<open>
  A buffer is a C array; a cell holds \<open>None\<close> until it is written. Reading such a cell
  and indexing outside the array are undefined in C++ and are reported as errors.
\<close>

type_synonym 'a buffer = "'a option list"

definition bufWrite :: "'a buffer \<Rightarrow> nat \<Rightarrow> 'a \<Rightarrow> error + 'a buffer" where
  "bufWrite b i v = (if i < length b then Inr (b[i := Some v]) else Inl OutOfRange)"

definition bufRead :: "'a buffer \<Rightarrow> nat \<Rightarrow> error + 'a" where
  "bufRead b i =
     (if i < length b then (case b ! i of None \<Rightarrow> Inl Uninitialised | Some v \<Rightarrow> Inr v)
      else Inl OutOfRange)"

datatype Matrix =
    CpuMatrix (mHeight: nat) (mWidth: nat) (mData: "real buffer")
  | CpuSparseMatrix (sHeight: nat) (sWidth: nat)
      (sRows: "int32 buffer") (sCols: "int32 buffer") (sValues: "real buffer option")

record Argument =
  arg_value :: "Matrix option"
  arg_ids :: "int32 buffer option"
  sequenceStartPositions :: "int32 buffer option"
  subSequenceStartPositions :: "int32 buffer option"

definition emptyArgument :: Argument where
  "emptyArgument = \<lparr> arg_value = None, arg_ids = None,
     sequenceStartPositions = None, subSequenceStartPositions = None \<rparr>"

text \<open>
  Modelled from the spec: the allocation primitives \<^verbatim>\<open>Matrix::resizeOrCreate\<close>,
  \<^verbatim>\<open>IVector::resizeOrCreate\<close>, \<^verbatim>\<open>Matrix::resizeOrCreateSparseMatrix\<close> and
  \<^verbatim>\<open>ICpuGpuVector::resizeOrCreate\<close> are not among the sources. They allocate exactly
  the measured size: \<open>rows \<times> dim\<close> cells, \<open>count\<close> integers, \<open>height + 1\<close> row offsets
  with \<open>nnz\<close> column indices (and \<open>nnz\<close> values when the format has values), and the
  requested number of offsets. The cells start unwritten.
\<close>

definition resizeOrCreate :: "nat \<Rightarrow> nat \<Rightarrow> Matrix" where
  "resizeOrCreate h w = CpuMatrix h w (replicate (h * w) None)"

definition resizeOrCreateVector :: "nat \<Rightarrow> int32 buffer" where
  "resizeOrCreateVector n = replicate n None"

definition resizeOrCreateSparseMatrix :: "nat \<Rightarrow> nat \<Rightarrow> nat \<Rightarrow> bool \<Rightarrow> Matrix" where
  "resizeOrCreateSparseMatrix h w nnz withValue =
     CpuSparseMatrix h w (replicate (h + 1) None) (replicate nnz None)
       (if withValue then Some (replicate nnz None) else None)"

text \<open>
  Modelled from the spec: \<^verbatim>\<open>py::SequenceHelper\<close> is declared in
  \<^verbatim>\<open>paddle/utils/PythonUtil.h\<close>, not among the sources. Its constructor checks that
  the object is a Python sequence, \<^verbatim>\<open>size()\<close> is the length, \<^verbatim>\<open>operator[]\<close>
  returns the item or the null pointer, and \<^verbatim>\<open>getDouble\<close> reads an item as a
  number; an item that is no number is a fatal coercion error.
\<close>

definition seqItems :: "handle \<Rightarrow> pyobj list option" where
  "seqItems h = (case h of Some (PySeq xs) \<Rightarrow> Some xs | _ \<Rightarrow> None)"

definition seqGet :: "pyobj list \<Rightarrow> nat \<Rightarrow> handle" where
  "seqGet xs i = (if i < length xs then Some (xs ! i) else None)"

definition getDouble :: "pyobj list \<Rightarrow> nat \<Rightarrow> real option" where
  "getDouble xs i =
     (case seqGet xs i of
        Some (PyFloat r) \<Rightarrow> Some r
      | Some (PyInt n) \<Rightarrow> Some (of_int n)
      | _ \<Rightarrow> None)"

text \<open>A \<^verbatim>\<open>for\<close> loop over a range or a container that stops at the first fatal error.\<close>

primrec foldE :: "('a \<Rightarrow> 's \<Rightarrow> error + 's) \<Rightarrow> 'a list \<Rightarrow> 's \<Rightarrow> error + 's" where
  "foldE f [] s = Inr s"
| "foldE f (x # xs) s = (case f x s of Inl e \<Rightarrow> Inl e | Inr s' \<Rightarrow> foldE f xs s')"

section \<open>Field scanners\<close>

text \<open>
  The scanner classes with their private counters. The counters are \<^verbatim>\<open>size_t\<close>
  values that count objects held in memory, so they are natural numbers here. A
  \<^verbatim>\<open>SequenceScanner\<close> owns its inner scanner and the callback that selects the offset
  vector it writes.
\<close>

datatype SeqStartPos = SequenceStartPositions | SubSequenceStartPositions

datatype scanner =
    DenseScanner nat nat
  | IndexScanner nat
  | SparseNonValueScanner nat nat nat
  | SparseValueScanner nat nat nat
  | SequenceScanner scanner nat SeqStartPos

definition getSeqStartPos :: "SeqStartPos \<Rightarrow> Argument \<Rightarrow> int32 buffer option" where
  "getSeqStartPos f a =
     (case f of SequenceStartPositions \<Rightarrow> sequenceStartPositions a
              | SubSequenceStartPositions \<Rightarrow> subSequenceStartPositions a)"

definition setSeqStartPos :: "SeqStartPos \<Rightarrow> int32 buffer \<Rightarrow> Argument \<Rightarrow> Argument" where
  "setSeqStartPos f b a =
     (case f of SequenceStartPositions \<Rightarrow> a\<lparr>sequenceStartPositions := Some b\<rparr>
              | SubSequenceStartPositions \<Rightarrow> a\<lparr>subSequenceStartPositions := Some b\<rparr>)"

fun startPrepare :: "scanner \<Rightarrow> Argument \<Rightarrow> scanner \<times> Argument" where
  "startPrepare (SequenceScanner inner cnt f) a =
     (case startPrepare inner a of (inner', a') \<Rightarrow> (SequenceScanner inner' cnt f, a'))"
| "startPrepare sc a = (sc, a)"

function prepare :: "scanner \<Rightarrow> Argument \<Rightarrow> handle \<Rightarrow> error + (scanner \<times> Argument)"
  and prepareEach :: "scanner \<Rightarrow> Argument \<Rightarrow> handle list \<Rightarrow> error + (scanner \<times> Argument)"
where
  "prepare (DenseScanner d height) a obj = Inr (DenseScanner d (height + 1), a)"
| "prepare (IndexScanner cnt) a obj = Inr (IndexScanner (cnt + 1), a)"
| "prepare (SparseNonValueScanner d nnz height) a obj =
     (case seqItems obj of
        None \<Rightarrow> Inl NotASequence
      | Some xs \<Rightarrow> Inr (SparseNonValueScanner d (nnz + length xs) (height + 1), a))"
| "prepare (SparseValueScanner d nnz height) a obj =
     (case seqItems obj of
        None \<Rightarrow> Inl NotASequence
      | Some xs \<Rightarrow> Inr (SparseValueScanner d (nnz + length xs) (height + 1), a))"
| "prepare (SequenceScanner inner cnt f) a obj =
     (case seqItems obj of
        None \<Rightarrow> Inl NotASequence
      | Some xs \<Rightarrow>
          (case prepareEach inner a (map Some xs) of
             Inl e \<Rightarrow> Inl e
           | Inr (inner', a') \<Rightarrow> Inr (SequenceScanner inner' (cnt + 1) f, a')))"
| "prepareEach sc a [] = Inr (sc, a)"
| "prepareEach sc a (x # xs) =
     (case prepare sc a x of
        Inl e \<Rightarrow> Inl e
      | Inr (sc', a') \<Rightarrow> prepareEach sc' a' xs)"
  by pat_completeness auto

lemma prepare_size:
  "prepare_prepareEach_dom (Inl (sc, a, obj)) \<Longrightarrow>
     prepare sc a obj = Inr (sc', a') \<Longrightarrow> size sc' = size sc"
  "prepare_prepareEach_dom (Inr (sc, a, objs)) \<Longrightarrow>
     prepareEach sc a objs = Inr (sc', a') \<Longrightarrow> size sc' = size sc"
proof (induction sc a obj and sc a objs arbitrary: sc' a' and sc' a'
    rule: prepare_prepareEach.pinduct)
  case (5 inner cnt f a obj)
  then show ?case
    by (auto simp: prepare.psimps split: option.splits sum.splits)
next
  case (7 sc a x xs)
  then show ?case
    by (auto simp: prepareEach.psimps split: sum.splits)
qed (auto simp: prepare.psimps prepareEach.psimps split: option.splits)

termination prepare
  by (relation "inv_image (less_than <*lex*> less_than <*lex*> less_than)
        (\<lambda>x. case x of Inl (sc, a, obj) \<Rightarrow> (size sc, 0, 0)
                      | Inr (sc, a, objs) \<Rightarrow> (size sc, 1, length objs))")
     (auto simp: prepare_size)

fun finishPrepare :: "scanner \<Rightarrow> Argument \<Rightarrow> scanner \<times> Argument" where
  "finishPrepare (DenseScanner d height) a =
     (DenseScanner d 0, a\<lparr>arg_value := Some (resizeOrCreate height d)\<rparr>)"
| "finishPrepare (IndexScanner cnt) a =
     (IndexScanner 0, a\<lparr>arg_ids := Some (resizeOrCreateVector cnt)\<rparr>)"
| "finishPrepare (SparseNonValueScanner d nnz height) a =
     (SparseNonValueScanner d nnz height,
      a\<lparr>arg_value := Some (resizeOrCreateSparseMatrix height d nnz False)\<rparr>)"
| "finishPrepare (SparseValueScanner d nnz height) a =
     (SparseValueScanner d nnz height,
      a\<lparr>arg_value := Some (resizeOrCreateSparseMatrix height d nnz True)\<rparr>)"
| "finishPrepare (SequenceScanner inner cnt f) a =
     (case finishPrepare inner (setSeqStartPos f (resizeOrCreateVector (cnt + 1)) a) of
        (inner', a') \<Rightarrow> (SequenceScanner inner' cnt f, a'))"

text \<open>\<^verbatim>\<open>smat->getRows()[0] = 0\<close> of the two sparse scanners.\<close>

definition sparseStartFill :: "Argument \<Rightarrow> error + Argument" where
  "sparseStartFill a =
     (case arg_value a of
        None \<Rightarrow> Inl NullDeref
      | Some (CpuMatrix h w dat) \<Rightarrow> Inl WrongMatrix
      | Some (CpuSparseMatrix h w rows cols vals) \<Rightarrow>
          (case bufWrite rows 0 0 of
             Inl e \<Rightarrow> Inl e
           | Inr rows' \<Rightarrow> Inr (a\<lparr>arg_value := Some (CpuSparseMatrix h w rows' cols vals)\<rparr>)))"

fun startFill :: "scanner \<Rightarrow> Argument \<Rightarrow> error + (scanner \<times> Argument)" where
  "startFill (SparseNonValueScanner d nnz height) a =
     (case sparseStartFill a of
        Inl e \<Rightarrow> Inl e | Inr a' \<Rightarrow> Inr (SparseNonValueScanner d 0 1, a'))"
| "startFill (SparseValueScanner d nnz height) a =
     (case sparseStartFill a of
        Inl e \<Rightarrow> Inl e | Inr a' \<Rightarrow> Inr (SparseValueScanner d 0 1, a'))"
| "startFill (SequenceScanner inner cnt f) a =
     (case getSeqStartPos f a of
        None \<Rightarrow> Inl NullDeref
      | Some pos \<Rightarrow>
          (case bufWrite pos 0 0 of
             Inl e \<Rightarrow> Inl e
           | Inr pos' \<Rightarrow>
               (case startFill inner (setSeqStartPos f pos' a) of
                  Inl e \<Rightarrow> Inl e
                | Inr (inner', a') \<Rightarrow> Inr (SequenceScanner inner' 1 f, a'))))"
| "startFill sc a = Inr (sc, a)"

text \<open>\<^verbatim>\<open>DenseScanner::fill\<close>: \<open>dim\<close> numbers written from cell \<open>height_ * dim\<close> on.\<close>

definition denseFill :: "nat \<Rightarrow> nat \<Rightarrow> Argument \<Rightarrow> handle \<Rightarrow> error + Argument" where
  "denseFill d height a obj =
     (case arg_value a of
        None \<Rightarrow> Inl NullDeref
      | Some (CpuSparseMatrix h w rows cols vals) \<Rightarrow> Inl WrongMatrix
      | Some (CpuMatrix h w dat) \<Rightarrow>
          (case seqItems obj of
             None \<Rightarrow> Inl NotASequence
           | Some xs \<Rightarrow>
               (case foldE (\<lambda>i buf. case getDouble xs i of
                                       None \<Rightarrow> Inl BadCast
                                     | Some r \<Rightarrow> bufWrite buf (height * d + i) r)
                       [0..<d] dat of
                  Inl e \<Rightarrow> Inl e
                | Inr dat' \<Rightarrow> Inr (a\<lparr>arg_value := Some (CpuMatrix h w dat')\<rparr>))))"

text \<open>\<^verbatim>\<open>IndexScanner::fill\<close>: one integer written at \<open>cnt_\<close>.\<close>

definition indexFill :: "nat \<Rightarrow> Argument \<Rightarrow> handle \<Rightarrow> error + Argument" where
  "indexFill cnt a obj =
     (case arg_ids a of
        None \<Rightarrow> Inl NullDeref
      | Some ids \<Rightarrow>
          (case castInt obj of
             None \<Rightarrow> Inl BadCast
           | Some v \<Rightarrow>
               (case bufWrite ids cnt v of
                  Inl e \<Rightarrow> Inl e
                | Inr ids' \<Rightarrow> Inr (a\<lparr>arg_ids := Some ids'\<rparr>))))"

text \<open>
  \<^verbatim>\<open>setData\<close> followed by \<^verbatim>\<open>++nnz_\<close>: the virtual method of
  \<^verbatim>\<open>SparseNonValueScanner\<close> (a column index) and its override in
  \<^verbatim>\<open>SparseValueScanner\<close> (a pair of a column index and a value).
\<close>

definition setData ::
  "bool \<Rightarrow> pyobj \<Rightarrow> int32 buffer \<times> real buffer option \<times> nat
     \<Rightarrow> error + (int32 buffer \<times> real buffer option \<times> nat)" where
  "setData withValue x st =
     (case st of (cols, vals, nnz) \<Rightarrow>
        if \<not> withValue then
          (case castInt (Some x) of
             None \<Rightarrow> Inl BadCast
           | Some c \<Rightarrow>
               (case bufWrite cols nnz c of
                  Inl e \<Rightarrow> Inl e
                | Inr cols' \<Rightarrow> Inr (cols', vals, nnz + 1)))
        else
          (case seqItems (Some x) of
             None \<Rightarrow> Inl NotASequence
           | Some p \<Rightarrow>
               (case castInt (seqGet p 0) of
                  None \<Rightarrow> Inl BadCast
                | Some c \<Rightarrow>
                    (case bufWrite cols nnz c of
                       Inl e \<Rightarrow> Inl e
                     | Inr cols' \<Rightarrow>
                         (case getDouble p 1 of
                            None \<Rightarrow> Inl BadCast
                          | Some r \<Rightarrow>
                              (case vals of
                                 None \<Rightarrow> Inl NullDeref
                               | Some vb \<Rightarrow>
                                   (case bufWrite vb nnz r of
                                      Inl e \<Rightarrow> Inl e
                                    | Inr vb' \<Rightarrow> Inr (cols', Some vb', nnz + 1))))))))"

text \<open>
  \<^verbatim>\<open>SparseNonValueScanner::fill\<close>, shared by both sparse scanners. The row offsets are
  C \<^verbatim>\<open>int\<close>s: the sample's length is cast to \<^verbatim>\<open>int\<close> and added in 32 bits.
\<close>

definition sparseFill :: "bool \<Rightarrow> nat \<Rightarrow> nat \<Rightarrow> Argument \<Rightarrow> handle \<Rightarrow> error + (nat \<times> Argument)" where
  "sparseFill withValue nnz height a obj =
     (case seqItems obj of
        None \<Rightarrow> Inl NotASequence
      | Some xs \<Rightarrow>
          (case arg_value a of
             None \<Rightarrow> Inl NullDeref
           | Some (CpuMatrix h w dat) \<Rightarrow> Inl WrongMatrix
           | Some (CpuSparseMatrix h w rows cols vals) \<Rightarrow>
               if height = 0 then Inl OutOfRange
               else
                 (case bufRead rows (height - 1) of
                    Inl e \<Rightarrow> Inl e
                  | Inr prev \<Rightarrow>
                      (case bufWrite rows height (prev + of_nat (length xs)) of
                         Inl e \<Rightarrow> Inl e
                       | Inr rows' \<Rightarrow>
                           (case foldE (setData withValue) xs (cols, vals, nnz) of
                              Inl e \<Rightarrow> Inl e
                            | Inr (cols', vals', nnz') \<Rightarrow>
                                Inr (nnz', a\<lparr>arg_value :=
                                       Some (CpuSparseMatrix h w rows' cols' vals')\<rparr>))))))"

text \<open>
  \<^verbatim>\<open>SequenceScanner::getSize\<close>: the number of innermost elements of one sample. The
  \<^verbatim>\<open>dynamic_cast\<close> of \<^verbatim>\<open>inner_\<close> is the case distinction on the inner scanner. The
  method exists in \<^verbatim>\<open>SequenceScanner\<close> only.
\<close>

fun getSize :: "scanner \<Rightarrow> handle \<Rightarrow> error + nat" where
  "getSize (SequenceScanner inner cnt f) obj =
     (case seqItems obj of
        None \<Rightarrow> Inl NotASequence
      | Some xs \<Rightarrow>
          (case inner of
             SequenceScanner inner2 cnt2 f2 \<Rightarrow>
               foldE (\<lambda>x sum. case getSize inner (Some x) of
                                Inl e \<Rightarrow> Inl e
                              | Inr n \<Rightarrow> Inr (sum + n)) xs 0
           | _ \<Rightarrow> Inr (length xs)))"
| "getSize sc obj = Inl NotImplemented"

function fill :: "scanner \<Rightarrow> Argument \<Rightarrow> handle \<Rightarrow> error + (scanner \<times> Argument)"
  and fillEach :: "scanner \<Rightarrow> Argument \<Rightarrow> handle list \<Rightarrow> error + (scanner \<times> Argument)"
where
  "fill (DenseScanner d height) a obj =
     (case denseFill d height a obj of
        Inl e \<Rightarrow> Inl e
      | Inr a' \<Rightarrow> Inr (DenseScanner d (height + 1), a'))"
| "fill (IndexScanner cnt) a obj =
     (case indexFill cnt a obj of
        Inl e \<Rightarrow> Inl e
      | Inr a' \<Rightarrow> Inr (IndexScanner (cnt + 1), a'))"
| "fill (SparseNonValueScanner d nnz height) a obj =
     (case sparseFill False nnz height a obj of
        Inl e \<Rightarrow> Inl e
      | Inr (nnz', a') \<Rightarrow> Inr (SparseNonValueScanner d nnz' (height + 1), a'))"
| "fill (SparseValueScanner d nnz height) a obj =
     (case sparseFill True nnz height a obj of
        Inl e \<Rightarrow> Inl e
      | Inr (nnz', a') \<Rightarrow> Inr (SparseValueScanner d nnz' (height + 1), a'))"
| "fill (SequenceScanner inner cnt f) a obj =
     (case getSeqStartPos f a of
        None \<Rightarrow> Inl NullDeref
      | Some pos \<Rightarrow>
          if cnt = 0 then Inl OutOfRange
          else
            (case bufRead pos (cnt - 1) of
               Inl e \<Rightarrow> Inl e
             | Inr prev \<Rightarrow>
                 (case getSize (SequenceScanner inner cnt f) obj of
                    Inl e \<Rightarrow> Inl e
                  | Inr n \<Rightarrow>
                      (case bufWrite pos cnt (prev + of_nat n) of
                         Inl e \<Rightarrow> Inl e
                       | Inr pos' \<Rightarrow>
                           (case seqItems obj of
                              None \<Rightarrow> Inl NotASequence
                            | Some xs \<Rightarrow>
                                (case fillEach inner (setSeqStartPos f pos' a) (map Some xs) of
                                   Inl e \<Rightarrow> Inl e
                                 | Inr (inner', a') \<Rightarrow>
                                     Inr (SequenceScanner inner' (cnt + 1) f, a')))))))"
| "fillEach sc a [] = Inr (sc, a)"
| "fillEach sc a (x # xs) =
     (case fill sc a x of
        Inl e \<Rightarrow> Inl e
      | Inr (sc', a') \<Rightarrow> fillEach sc' a' xs)"
  by pat_completeness auto

lemma fill_size:
  "fill_fillEach_dom (Inl (sc, a, obj)) \<Longrightarrow>
     fill sc a obj = Inr (sc', a') \<Longrightarrow> size sc' = size sc"
  "fill_fillEach_dom (Inr (sc, a, objs)) \<Longrightarrow>
     fillEach sc a objs = Inr (sc', a') \<Longrightarrow> size sc' = size sc"
proof (induction sc a obj and sc a objs arbitrary: sc' a' and sc' a'
    rule: fill_fillEach.pinduct)
  case (5 inner cnt f a obj)
  then show ?case
    by (auto simp: fill.psimps split: option.splits sum.splits if_splits)
next
  case (7 sc a x xs)
  then show ?case
    by (auto simp: fillEach.psimps split: sum.splits)
qed (auto simp: fill.psimps fillEach.psimps split: sum.splits)

termination fill
  by (relation "inv_image (less_than <*lex*> less_than <*lex*> less_than)
        (\<lambda>x. case x of Inl (sc, a, obj) \<Rightarrow> (size sc, 0, 0)
                      | Inr (sc, a, objs) \<Rightarrow> (size sc, 1, length objs))")
     (auto simp: fill_size)

fun finishFill :: "scanner \<Rightarrow> Argument \<Rightarrow> scanner \<times> Argument" where
  "finishFill (SequenceScanner inner cnt f) a =
     (case finishFill inner a of (inner', a') \<Rightarrow> (SequenceScanner inner' cnt f, a'))"
| "finishFill sc a = (sc, a)"

text \<open>\<^verbatim>\<open>IFieldScanner::create\<close>, with the fall-through from sub-sequence to sequence.\<close>

definition create :: "SlotHeader \<Rightarrow> error + scanner" where
  "create header =
     (case (if slotType header = ST_DENSE then Inr (DenseScanner (dim header) 0)
            else if slotType header = ST_INDEX then Inr (IndexScanner 0)
            else if slotType header = ST_NON_SPARSE_VALUE
              then Inr (SparseNonValueScanner (dim header) 0 0)
            else if slotType header = ST_SPARSE_VALUE
              then Inr (SparseValueScanner (dim header) 0 0)
            else Inl NotImplemented) of
        Inl e \<Rightarrow> Inl e
      | Inr retv \<Rightarrow>
          if seqType header = SQT_NONE then Inr retv
          else if seqType header = SQT_SUBSEQ then
            Inr (SequenceScanner (SequenceScanner retv 0 SubSequenceStartPositions) 0
                   SequenceStartPositions)
          else if seqType header = SQT_SEQ then
            Inr (SequenceScanner retv 0 SequenceStartPositions)
          else Inl NotImplemented)"

section \<open>Assembling a batch\<close>

primrec mapE :: "('a \<Rightarrow> error + 'b) \<Rightarrow> 'a list \<Rightarrow> error + 'b list" where
  "mapE f [] = Inr []"
| "mapE f (x # xs) =
     (case f x of
        Inl e \<Rightarrow> Inl e
      | Inr y \<Rightarrow> (case mapE f xs of Inl e \<Rightarrow> Inl e | Inr ys \<Rightarrow> Inr (y # ys)))"

text \<open>
  The body of the two loops over \<^verbatim>\<open>data\<close> (lines 555 to 560 and 567 to 572): slot
  \<open>i\<close> of the sample goes to scanner \<open>i\<close>.
\<close>

definition scanSample ::
  "(scanner \<Rightarrow> Argument \<Rightarrow> handle \<Rightarrow> error + (scanner \<times> Argument))
     \<Rightarrow> handle \<Rightarrow> (scanner \<times> Argument) list \<Rightarrow> error + (scanner \<times> Argument) list" where
  "scanSample phase d st =
     (case seqItems d of
        None \<Rightarrow> Inl NotASequence
      | Some s \<Rightarrow>
          mapE (\<lambda>(i, (sc, a)). phase sc a (seqGet s i)) (zip [0..<length st] st))"

text \<open>Lines 542 to 576: the scanners of all slots run the prepare phase, then the fill phase.\<close>

definition assembleBatch :: "SlotHeader list \<Rightarrow> handle list \<Rightarrow> error + Argument list" where
  "assembleBatch hs data =
     (case mapE create hs of
        Inl e \<Rightarrow> Inl e
      | Inr scanners \<Rightarrow>
          (let st1 = map (\<lambda>sc. startPrepare sc emptyArgument) scanners in
           case foldE (scanSample prepare) data st1 of
             Inl e \<Rightarrow> Inl e
           | Inr st2 \<Rightarrow>
               (let st3 = map (\<lambda>(sc, a). finishPrepare sc a) st2 in
                case mapE (\<lambda>(sc, a). startFill sc a) st3 of
                  Inl e \<Rightarrow> Inl e
                | Inr st4 \<Rightarrow>
                    (case foldE (scanSample fill) data st4 of
                       Inl e \<Rightarrow> Inl e
                     | Inr st5 \<Rightarrow> Inr (map (\<lambda>(sc, a). snd (finishFill sc a)) st5)))))"

section \<open>The data provider\<close>

text \<open>
  What \<^verbatim>\<open>readPyFields\<close> reads once from the Python object, and what the outside
  world supplies: \<open>generators\<close> lists, for each file of the file list, the items its
  generator yields when iterated, a \<open>None\<close> item being an iteration that returns the
  null pointer without signalling the end.
\<close>

record config =
  skipShuffle :: bool
  poolSize :: size_t
  canOverBatchSize :: bool
  calcBatchSize :: weigher
  headers :: "SlotHeader list"
  useGpu :: bool
  generators :: "handle list list"

text \<open>
  Where the loading thread stands: at the head of its loop, before the wait on
  \<^verbatim>\<open>pushCV_\<close> or before the insertion (holding the sample read and its weight), or
  past the loop.
\<close>

datatype loader =
    AtLoopHead
  | Waiting pyobj size_t
  | Inserting pyobj size_t
  | Ended

text \<open>The fields of \<^verbatim>\<open>PyDataProvider2\<close>; \<open>loadThread = None\<close> is the null pointer.\<close>

record provider =
  loadThread :: "loader option"
  exit_flag :: bool
  callingContexts :: "handle list list"
  dataPool :: "handle list"
  poolActualSize :: size_t
  cache :: cache

record DataBatch =
  batchSize :: size_t
  streams :: "Argument list"

text \<open>
  The constructor creates the cache and leaves \<^verbatim>\<open>poolActualSize_\<close> and \<^verbatim>\<open>exit_\<close>
  without an initial value; \<open>junkSize\<close> and \<open>junkExit\<close> stand for what they hold.
\<close>

definition PyDataProvider2 :: "int \<Rightarrow> size_t \<Rightarrow> bool \<Rightarrow> error + provider" where
  "PyDataProvider2 ct junkSize junkExit =
     (case cache_create ct of
        Inl e \<Rightarrow> Inl e
      | Inr c \<Rightarrow> Inr \<lparr> loadThread = None, exit_flag = junkExit, callingContexts = [],
                       dataPool = [], poolActualSize = junkSize, cache = c \<rparr>)"

text \<open>
  \<^verbatim>\<open>PositionRandom::operator()\<close>: 0 without shuffling; otherwise a draw \<open>r\<close> of the
  random engine brought into the range from 0 to \<^verbatim>\<open>len - 1\<close>, the subtraction being
  one of \<^verbatim>\<open>size_t\<close>.
\<close>

definition PositionRandom :: "bool \<Rightarrow> nat \<Rightarrow> nat \<Rightarrow> nat" where
  "PositionRandom skipRand r len =
     (if \<not> skipRand then r mod (unat (of_nat len - 1 :: size_t) + 1) else 0)"

text \<open>\<^verbatim>\<open>py::iterNext\<close>: the item and the rest of the iteration, or nothing at the end or
  when the item is the null pointer.\<close>

definition iterNext :: "handle list \<Rightarrow> (pyobj \<times> handle list) option" where
  "iterNext ctx = (case ctx of [] \<Rightarrow> None | None # rest \<Rightarrow> None | Some d # rest \<Rightarrow> Some (d, rest))"

text \<open>The weight computed by the loading thread (lines 341 to 351).\<close>

definition additionalBatchSize :: "weigher \<Rightarrow> pyobj \<Rightarrow> error + size_t" where
  "additionalBatchSize calc d =
     (case calc of
        None \<Rightarrow> Inr 1
      | Some f \<Rightarrow>
          (case f d of
             None \<Rightarrow> Inl PyCallFailed
           | Some bs \<Rightarrow>
               (case castInt (Some bs) of
                  None \<Rightarrow> Inl BadBatchSize
                | Some w \<Rightarrow> Inr w)))"

text \<open>The predicate of the wait on \<^verbatim>\<open>pushCV_\<close> (lines 355 to 361).\<close>

definition pushReady :: "config \<Rightarrow> provider \<Rightarrow> size_t \<Rightarrow> bool" where
  "pushReady cfg s w =
     (if canOverBatchSize cfg then poolActualSize s < poolSize cfg
      else poolActualSize s + w < poolSize cfg)"

text \<open>The predicate of the wait on \<^verbatim>\<open>pullCV_\<close> (lines 479 to 481).\<close>

definition pullReady :: "provider \<Rightarrow> size_t \<Rightarrow> bool" where
  "pullReady s sz = (poolActualSize s \<ge> sz \<or> callingContexts s = [])"

datatype 'a step = Next 'a | Blocked | Fatal error

text \<open>
  One atomic step of \<^verbatim>\<open>loadThread\<close> (lines 327 to 373): reading one item and weighing
  it, passing the wait, or inserting under the lock. A step that cannot be taken now is
  \<^const>\<open>Blocked\<close>.
\<close>

definition loadThreadStep :: "config \<Rightarrow> nat \<Rightarrow> provider \<Rightarrow> provider step" where
  "loadThreadStep cfg r s =
     (case loadThread s of
        None \<Rightarrow> Blocked
      | Some Ended \<Rightarrow> Blocked
      | Some AtLoopHead \<Rightarrow>
          if \<not> exit_flag s \<and> callingContexts s \<noteq> [] then
            (let cid = PositionRandom (skipShuffle cfg) r (length (callingContexts s)) in
             if \<not> cid < length (callingContexts s) then Fatal OutOfRange
             else
               (case iterNext (callingContexts s ! cid) of
                  None \<Rightarrow>
                    Next (s\<lparr>callingContexts :=
                              take cid (callingContexts s) @ drop (Suc cid) (callingContexts s)\<rparr>)
                | Some (d, rest) \<Rightarrow>
                    (case additionalBatchSize (calcBatchSize cfg) d of
                       Inl e \<Rightarrow> Fatal e
                     | Inr w \<Rightarrow>
                         Next (s\<lparr>callingContexts := (callingContexts s)[cid := rest],
                                 loadThread := Some (Waiting d w)\<rparr>))))
          else Next (s\<lparr>loadThread := Some Ended\<rparr>)
      | Some (Waiting d w) \<Rightarrow>
          if pushReady cfg s w then Next (s\<lparr>loadThread := Some (Inserting d w)\<rparr>) else Blocked
      | Some (Inserting d w) \<Rightarrow>
          Next (s\<lparr>poolActualSize := poolActualSize s + w,
                  dataPool := dataPool s @ [Some d],
                  loadThread := Some AtLoopHead\<rparr>))"

text \<open>
  \<^verbatim>\<open>resetImpl\<close>. Joining a loading thread that has not reached its end needs that
  thread to run on, so the call is \<^const>\<open>WouldBlock\<close> there. A new thread creates one
  calling context per file and meets the caller at the barrier.
\<close>

definition resetImpl :: "config \<Rightarrow> bool \<Rightarrow> provider \<Rightarrow> error + provider" where
  "resetImpl cfg startNewThread s =
     (if loadThread s \<noteq> None \<and> loadThread s \<noteq> Some Ended then Inl WouldBlock
      else
        (let s1 = s\<lparr>loadThread := None, callingContexts := [], dataPool := [],
                     poolActualSize := 0, exit_flag := False\<rparr>
         in if startNewThread then
              (case cache_reset (cache s1) of
                 Inl e \<Rightarrow> Inl e
               | Inr (reload, c) \<Rightarrow>
                   if reload then
                     Inr (s1\<lparr>cache := c, loadThread := Some AtLoopHead,
                              callingContexts := generators cfg\<rparr>)
                   else Inr (s1\<lparr>cache := c\<rparr>))
            else Inr s1))"

definition reset :: "config \<Rightarrow> provider \<Rightarrow> error + provider" where
  "reset cfg s = resetImpl cfg True s"

text \<open>The pool a batch is drawn from (lines 485 to 494), and storing it back.\<close>

definition poolOf :: "provider \<Rightarrow> handle list option" where
  "poolOf s = (if loadThread s \<noteq> None then Some (dataPool s) else cache_load (cache s))"

definition setPool :: "handle list \<Rightarrow> provider \<Rightarrow> provider" where
  "setPool pool s =
     (if loadThread s \<noteq> None then s\<lparr>dataPool := pool\<rparr>
      else s\<lparr>cache := cache_store (cache s) pool\<rparr>)"

text \<open>
  Lines 530 to 600, after the loop: the weight drawn leaves \<^verbatim>\<open>poolActualSize_\<close>, a
  zero \<^verbatim>\<open>bsize\<close> returns 0 and leaves the caller's batch alone, otherwise the batch
  is assembled and the samples go to the cache.
\<close>

definition finishBatch ::
  "config \<Rightarrow> size_t \<Rightarrow> handle list \<Rightarrow> size_t \<Rightarrow> provider
     \<Rightarrow> error + (size_t \<times> DataBatch option \<times> provider)" where
  "finishBatch cfg sz data bsize s =
     (let s1 = (if loadThread s \<noteq> None then s\<lparr>poolActualSize := poolActualSize s - bsize\<rparr>
                else s)
      in if bsize = 0 then Inr (0, None, s1)
         else
           (case assembleBatch (headers cfg) data of
              Inl e \<Rightarrow> Inl e
            | Inr args \<Rightarrow>
                Inr (bsize,
                     Some \<lparr> batchSize = (if useGpu cfg then sz else bsize), streams = args \<rparr>,
                     s1\<lparr>cache := fst (cache_drop (cache s1) data)\<rparr>)))"

text \<open>
  \<^verbatim>\<open>getNextBatchInternal\<close> run without the loading thread moving in between. With a
  thread, a call whose wait on \<^verbatim>\<open>pullCV_\<close> is not over is \<^const>\<open>WouldBlock\<close>: it
  does not return while the state stays as it is. \<open>size0\<close> is the \<^verbatim>\<open>int64_t\<close>
  argument, \<open>rnd\<close> the values of \<^verbatim>\<open>rand()\<close>.
\<close>

definition getNextBatchInternal ::
  "config \<Rightarrow> (nat \<Rightarrow> nat) \<Rightarrow> size_t \<Rightarrow> provider
     \<Rightarrow> error + (size_t \<times> DataBatch option \<times> provider)" where
  "getNextBatchInternal cfg rnd size0 s =
     (if sint size0 < 0 then Inl NegativeSize
      else if loadThread s \<noteq> None \<and> \<not> pullReady s size0 then Inl WouldBlock
      else
        (case poolOf s of
           None \<Rightarrow> Inl NullPool
         | Some pool \<Rightarrow>
             (case drawSamples (skipShuffle cfg) (calcBatchSize cfg) rnd size0 pool of
                Inl e \<Rightarrow> Inl e
              | Inr (pool', data, bsize, k) \<Rightarrow>
                  finishBatch cfg size0 data bsize (setPool pool' s))))"

text \<open>The weight of a list of samples as a natural number, without wrap-around.\<close>

definition poolWeight :: "weigher \<Rightarrow> handle list \<Rightarrow> nat" where
  "poolWeight calc hs = sum_list (map (\<lambda>h. unat (weightVal calc h)) hs)"

text \<open>
  Example inputs: a provider for one index slot, unshuffled, with capacity 4 and two
  files whose generators yield three samples each.
\<close>

definition indexHeader :: SlotHeader where
  "indexHeader = \<lparr> dim = 1, slotType = ST_INDEX, seqType = SQT_NONE \<rparr>"

definition sample :: "int \<Rightarrow> handle" where
  "sample n = Some (PySeq [PyInt n])"

definition exampleConfig :: config where
  "exampleConfig = \<lparr> skipShuffle = True, poolSize = 4, canOverBatchSize = False,
     calcBatchSize = None, headers = [indexHeader], useGpu = False,
     generators = [[sample 11, sample 12, sample 13], [sample 21, sample 22, sample 23]] \<rparr>"


section \<open>Notions used to state the claims about the scanners\<close>

text \<open>
  The object that scanner \<open>i\<close> receives for a sample, and the calls a single scanner
  receives in the course of \<^const>\<open>assembleBatch\<close>, in their order.
\<close>

definition slotField :: "nat \<Rightarrow> handle \<Rightarrow> handle" where
  "slotField i d = (case seqItems d of None \<Rightarrow> None | Some s \<Rightarrow> seqGet s i)"

definition scanSlot :: "scanner \<Rightarrow> handle list \<Rightarrow> error + Argument" where
  "scanSlot sc objs =
     (case startPrepare sc emptyArgument of (sc1, a1) \<Rightarrow>
      case prepareEach sc1 a1 objs of
        Inl e \<Rightarrow> Inl e
      | Inr (sc2, a2) \<Rightarrow>
          (case finishPrepare sc2 a2 of (sc3, a3) \<Rightarrow>
           case startFill sc3 a3 of
             Inl e \<Rightarrow> Inl e
           | Inr (sc4, a4) \<Rightarrow>
               (case fillEach sc4 a4 objs of
                  Inl e \<Rightarrow> Inl e
                | Inr (sc5, a5) \<Rightarrow> Inr (snd (finishFill sc5 a5)))))"

text \<open>
  The number of elements of one object, and the number of innermost elements of a
  sample of a sequence slot: its timesteps, or the timesteps of all its sub-sequences.
\<close>

definition elementCount :: "handle \<Rightarrow> nat" where
  "elementCount h = (case seqItems h of None \<Rightarrow> 0 | Some xs \<Rightarrow> length xs)"

definition innerCount :: "int \<Rightarrow> handle \<Rightarrow> nat" where
  "innerCount sqt h =
     (if sqt = SQT_SUBSEQ then
        (case seqItems h of
           None \<Rightarrow> 0
         | Some xs \<Rightarrow> sum_list (map (\<lambda>x. elementCount (Some x)) xs))
      else elementCount h)"

text \<open>Running sums in 32-bit arithmetic, starting after \<open>v\<close>.\<close>

fun offsetsFrom :: "int32 \<Rightarrow> nat list \<Rightarrow> int32 list" where
  "offsetsFrom v [] = []"
| "offsetsFrom v (n # ns) = (v + of_nat n) # offsetsFrom (v + of_nat n) ns"

text \<open>Either sparse scanner, by whether its matrix has values.\<close>

definition sparseScanner :: "bool \<Rightarrow> nat \<Rightarrow> nat \<Rightarrow> nat \<Rightarrow> scanner" where
  "sparseScanner withValue d nnz height =
     (if withValue then SparseValueScanner d nnz height else SparseNonValueScanner d nnz height)"

text \<open>Example inputs: a sparse slot without values and one with values, and three samples
  for each.\<close>

definition sparseHeader :: SlotHeader where
  "sparseHeader = \<lparr> dim = 10, slotType = ST_NON_SPARSE_VALUE, seqType = SQT_NONE \<rparr>"

definition sparseSamples :: "handle list" where
  "sparseSamples = [Some (PySeq [PySeq [PyInt 5]]), Some (PySeq [PySeq []]),
     Some (PySeq [PySeq [PyInt 2, PyInt 7]])]"

definition sparseValueHeader :: SlotHeader where
  "sparseValueHeader = \<lparr> dim = 10, slotType = ST_SPARSE_VALUE, seqType = SQT_NONE \<rparr>"

definition sparseValueSamples :: "handle list" where
  "sparseValueSamples = [Some (PySeq [PySeq [PySeq [PyInt 5, PyFloat 1]]]), Some (PySeq [PySeq []]),
     Some (PySeq [PySeq [PySeq [PyInt 2, PyFloat 2], PySeq [PyInt 7, PyInt 3]]])]"

text \<open>
  A scanner with its counters cleared, which is what \<^const>\<open>getSize\<close> depends on, and
  whether a scanner or one of its inner scanners writes a given offset vector.
\<close>

fun shape :: "scanner \<Rightarrow> scanner" where
  "shape (DenseScanner d height) = DenseScanner d 0"
| "shape (IndexScanner cnt) = IndexScanner 0"
| "shape (SparseNonValueScanner d nnz height) = SparseNonValueScanner d 0 0"
| "shape (SparseValueScanner d nnz height) = SparseValueScanner d 0 0"
| "shape (SequenceScanner inner cnt f) = SequenceScanner (shape inner) 0 f"

fun usesField :: "SeqStartPos \<Rightarrow> scanner \<Rightarrow> bool" where
  "usesField f (SequenceScanner inner cnt g) = (f = g \<or> usesField f inner)"
| "usesField f sc = False"

fun isBase :: "scanner \<Rightarrow> bool" where
  "isBase (SequenceScanner inner cnt f) = False"
| "isBase sc = True"

text \<open>Example inputs: an index slot with sub-sequences and three samples for it.\<close>

definition subSeqHeader :: SlotHeader where
  "subSeqHeader = \<lparr> dim = 10, slotType = ST_INDEX, seqType = SQT_SUBSEQ \<rparr>"

definition subSeqSamples :: "handle list" where
  "subSeqSamples = [Some (PySeq [PySeq [PySeq [PyInt 5, PyInt 6], PySeq [PyInt 1]]]),
     Some (PySeq [PySeq []]), Some (PySeq [PySeq [PySeq [PyInt 2, PyInt 7]]])]"

section \<open>The producer and the consumer, interleaved\<close>

text \<open>
  Where the caller of \<^verbatim>\<open>getNextBatchInternal\<close> stands: outside a call, at the wait
  on \<^verbatim>\<open>pullCV_\<close>, in the drawing loop (with the request, the samples drawn and
  \<^verbatim>\<open>bsize\<close>), or past the loop.
\<close>

datatype consumer =
    Idle
  | WaitPull size_t
  | Drawing size_t "handle list" size_t
  | Finishing size_t "handle list" size_t

text \<open>
  The provider together with its caller. \<open>returned\<close> is a history variable: the value
  returned by every finished call, with the samples of its batch.
\<close>

record protocol =
  prov :: provider
  caller :: consumer
  returned :: "(size_t \<times> handle list) list"

definition startProtocol :: "provider \<Rightarrow> protocol" where
  "startProtocol s = \<lparr> prov = s, caller = Idle, returned = [] \<rparr>"

text \<open>
  The scheduler's choices: a step of the loading thread (with the draw of its random
  engine), the caller entering \<^verbatim>\<open>getNextBatchInternal\<close> with a requested size, and a
  step of the caller inside the call (with the value of \<^verbatim>\<open>rand()\<close>).
\<close>

datatype action = Load nat | Call size_t | Pull nat

text \<open>
  One atomic step of the caller inside \<^verbatim>\<open>getNextBatchInternal\<close>: passing the wait,
  one iteration of the loop (the test of line 496 and the locked block), leaving the
  loop, and lines 530 to 600.
\<close>

definition callerStep :: "config \<Rightarrow> nat \<Rightarrow> protocol \<Rightarrow> protocol step" where
  "callerStep cfg r p =
     (case caller p of
        Idle \<Rightarrow> Blocked
      | WaitPull sz \<Rightarrow>
          if loadThread (prov p) \<noteq> None \<and> \<not> pullReady (prov p) sz then Blocked
          else
            (case poolOf (prov p) of
               None \<Rightarrow> Fatal NullPool
             | Some pool \<Rightarrow> Next (p\<lparr>caller := Drawing sz [] 0\<rparr>))
      | Drawing sz data bsize \<Rightarrow>
          (case poolOf (prov p) of
             None \<Rightarrow> Fatal NullPool
           | Some pool \<Rightarrow>
               if bsize < sz \<and> pool \<noteq> [] then
                 (case moveSample (skipShuffle cfg) r pool of
                    Inl e \<Rightarrow> Fatal e
                  | Inr (h, pool') \<Rightarrow>
                      (case drawnWeight (calcBatchSize cfg) h of
                         Inl e \<Rightarrow> Fatal e
                       | Inr w \<Rightarrow>
                           Next (p\<lparr>prov := setPool pool' (prov p),
                                   caller := Drawing sz (data @ [h]) (bsize + w)\<rparr>)))
               else Next (p\<lparr>caller := Finishing sz data bsize\<rparr>))
      | Finishing sz data bsize \<Rightarrow>
          (case finishBatch cfg sz data bsize (prov p) of
             Inl e \<Rightarrow> Fatal e
           | Inr (res, batch, s') \<Rightarrow>
               Next (p\<lparr>prov := s', caller := Idle,
                       returned := returned p @ [(res, if res = 0 then [] else data)]\<rparr>)))"

definition step :: "config \<Rightarrow> action \<Rightarrow> protocol \<Rightarrow> protocol step" where
  "step cfg a p =
     (case a of
        Load r \<Rightarrow>
          (case loadThreadStep cfg r (prov p) of
             Next s \<Rightarrow> Next (p\<lparr>prov := s\<rparr>)
           | Blocked \<Rightarrow> Blocked
           | Fatal e \<Rightarrow> Fatal e)
      | Call size0 \<Rightarrow>
          (case caller p of
             Idle \<Rightarrow> if sint size0 < 0 then Fatal NegativeSize
                     else Next (p\<lparr>caller := WaitPull size0\<rparr>)
           | _ \<Rightarrow> Blocked)
      | Pull r \<Rightarrow> callerStep cfg r p)"

fun run :: "config \<Rightarrow> action list \<Rightarrow> protocol \<Rightarrow> protocol step" where
  "run cfg [] p = Next p"
| "run cfg (a # as) p =
     (case step cfg a p of
        Next p' \<Rightarrow> run cfg as p'
      | Blocked \<Rightarrow> Blocked
      | Fatal e \<Rightarrow> Fatal e)"

text \<open>
  The samples a calling context yields before it is erased, those the loading thread
  holds outside the pool, and those the caller has drawn in the call under way.
\<close>

definition produced :: "handle list \<Rightarrow> handle list" where
  "produced ctx = takeWhile (\<lambda>h. h \<noteq> None) ctx"

definition held :: "loader option \<Rightarrow> handle list" where
  "held t = (case t of Some (Waiting d w) \<Rightarrow> [Some d] | Some (Inserting d w) \<Rightarrow> [Some d] | _ \<Rightarrow> [])"

definition drawn :: "consumer \<Rightarrow> handle list" where
  "drawn c = (case c of Drawing sz data bsize \<Rightarrow> data | Finishing sz data bsize \<Rightarrow> data | _ \<Rightarrow> [])"

definition drawnSize :: "consumer \<Rightarrow> size_t" where
  "drawnSize c = (case c of Drawing sz data bsize \<Rightarrow> bsize | Finishing sz data bsize \<Rightarrow> bsize | _ \<Rightarrow> 0)"

text \<open>The weight of all the samples of a pass, as a natural number.\<close>

definition passWeight :: "config \<Rightarrow> nat" where
  "passWeight cfg = poolWeight (calcBatchSize cfg) (concat (map produced (generators cfg)))"

text \<open>
  The invariant that ties \<^verbatim>\<open>poolActualSize_\<close> to the samples: while a loading thread
  exists, the counter is the weight of the pool plus the weight of the samples drawn in
  the call under way, \<^verbatim>\<open>bsize\<close> is the weight of the latter, the thread holds a
  sample with the weight the caller will compute for it, and all samples still in
  flight weigh no more than the pass. Without a thread the counter stays 0.
\<close>

definition weightInv :: "config \<Rightarrow> protocol \<Rightarrow> bool" where
  "weightInv cfg p =
     ((loadThread (prov p) = None \<longrightarrow> poolActualSize (prov p) = 0)
      \<and> (loadThread (prov p) \<noteq> None \<longrightarrow>
           poolWeight (calcBatchSize cfg) (drawn (caller p))
             + poolWeight (calcBatchSize cfg) (dataPool (prov p))
             + poolWeight (calcBatchSize cfg) (held (loadThread (prov p)))
             + poolWeight (calcBatchSize cfg) (concat (map produced (callingContexts (prov p))))
             \<le> passWeight cfg
           \<and> unat (poolActualSize (prov p))
               = poolWeight (calcBatchSize cfg) (dataPool (prov p))
                 + poolWeight (calcBatchSize cfg) (drawn (caller p))
           \<and> unat (drawnSize (caller p)) = poolWeight (calcBatchSize cfg) (drawn (caller p))
           \<and> (\<forall>d w. loadThread (prov p) = Some (Waiting d w)
                      \<or> loadThread (prov p) = Some (Inserting d w)
                  \<longrightarrow> w = weightVal (calcBatchSize cfg) (Some d))))"

text \<open>
  The capacity invariant. Strict mode: the counter is at most the capacity, and a push
  that has passed the wait still fits below it. Lenient mode: the counter exceeds the
  capacity by less than the weight of one sample that is in the pool or has been drawn
  in the call under way, and a push that has passed the wait found the counter below the
  capacity.
\<close>

definition capInv :: "config \<Rightarrow> protocol \<Rightarrow> bool" where
  "capInv cfg p =
     (if \<not> canOverBatchSize cfg then
        poolActualSize (prov p) \<le> poolSize cfg
        \<and> (\<forall>d w. loadThread (prov p) = Some (Inserting d w) \<longrightarrow>
               unat (poolActualSize (prov p)) + unat w < unat (poolSize cfg))
      else
        (poolActualSize (prov p) \<le> poolSize cfg
         \<or> (\<exists>h \<in> set (dataPool (prov p) @ drawn (caller p)).
               unat (poolActualSize (prov p))
                 < unat (poolSize cfg) + unat (weightVal (calcBatchSize cfg) h)))
        \<and> (\<forall>d w. loadThread (prov p) = Some (Inserting d w) \<longrightarrow>
               poolActualSize (prov p) < poolSize cfg))"

text \<open>
  Example inputs: a weigher that takes the weight from the first field of the sample, a
  provider in lenient mode with capacity 4 whose only file yields samples of weight 3
  and 5, and the state of the two example providers after \<^verbatim>\<open>reset\<close>.
\<close>

definition fieldWeigher :: weigher where
  "fieldWeigher = Some (\<lambda>x. case x of PySeq (y # ys) \<Rightarrow> Some y | _ \<Rightarrow> None)"

definition lenientConfig :: config where
  "lenientConfig = \<lparr> skipShuffle = True, poolSize = 4, canOverBatchSize = True,
     calcBatchSize = fieldWeigher, headers = [indexHeader], useGpu = False,
     generators = [[sample 3, sample 5]] \<rparr>"

definition exampleStart :: protocol where
  "exampleStart = \<lparr> prov = \<lparr> loadThread = Some AtLoopHead, exit_flag = False,
       callingContexts = [[sample 11, sample 12, sample 13], [sample 21, sample 22, sample 23]],
       dataPool = [], poolActualSize = 0, cache = NoCacheStrategy \<rparr>,
     caller = Idle, returned = [] \<rparr>"

definition lenientStart :: protocol where
  "lenientStart = \<lparr> prov = \<lparr> loadThread = Some AtLoopHead, exit_flag = False,
       callingContexts = [[sample 3, sample 5]],
       dataPool = [], poolActualSize = 0, cache = NoCacheStrategy \<rparr>,
     caller = Idle, returned = [] \<rparr>"

definition freshProvider :: provider where
  "freshProvider = \<lparr> loadThread = None, exit_flag = True, callingContexts = [],
     dataPool = [], poolActualSize = 7, cache = NoCacheStrategy \<rparr>"

text \<open>
  States of the first example provider: the loading thread holds its first sample, and
  the loading thread holds its fourth sample with three samples in the pool.
\<close>

definition exampleWaiting :: protocol where
  "exampleWaiting = \<lparr> prov = \<lparr> loadThread = Some (Waiting (PySeq [PyInt 11]) 1),
       exit_flag = False,
       callingContexts = [[sample 12, sample 13], [sample 21, sample 22, sample 23]],
       dataPool = [], poolActualSize = 0, cache = NoCacheStrategy \<rparr>,
     caller = Idle, returned = [] \<rparr>"

definition exampleFull :: protocol where
  "exampleFull = \<lparr> prov = \<lparr> loadThread = Some (Waiting (PySeq [PyInt 21]) 1),
       exit_flag = False, callingContexts = [[sample 22, sample 23]],
       dataPool = [sample 11, sample 12, sample 13], poolActualSize = 3,
       cache = NoCacheStrategy \<rparr>,
     caller = Idle, returned = [] \<rparr>"

definition lenientOver :: protocol where
  "lenientOver = \<lparr> prov = \<lparr> loadThread = Some AtLoopHead, exit_flag = False,
       callingContexts = [[]], dataPool = [sample 3, sample 5], poolActualSize = 8,
       cache = NoCacheStrategy \<rparr>,
     caller = Idle, returned = [] \<rparr>"

section \<open>Notions used to state the determinism of the unshuffled order\<close>

text \<open>
  The samples of a pass in the order of the files, the sizes requested by the calls of
  a schedule, and the results of a sequence of calls when each batch is drawn from the
  whole remaining stream of samples at once.
\<close>

definition stream :: "config \<Rightarrow> handle list" where
  "stream cfg = concat (map produced (generators cfg))"

fun calls :: "action list \<Rightarrow> size_t list" where
  "calls [] = []"
| "calls (Call sz # acts) = sz # calls acts"
| "calls (Load r # acts) = calls acts"
| "calls (Pull r # acts) = calls acts"

fun expectedBatches :: "weigher \<Rightarrow> size_t list \<Rightarrow> handle list \<Rightarrow> (size_t \<times> handle list) list" where
  "expectedBatches calc [] strm = []"
| "expectedBatches calc (sz # szs) strm =
     (case drawSamples True calc rndZero sz strm of
        Inl e \<Rightarrow> []
      | Inr (rest, data, bsize, k) \<Rightarrow>
          (bsize, if bsize = 0 then [] else data) # expectedBatches calc szs rest)"

text \<open>
  The samples not yet drawn, in the order in which an unshuffled provider hands them
  out: the pool, the sample held by the loading thread, the rest of the files.
\<close>

definition pendingTail :: "protocol \<Rightarrow> handle list" where
  "pendingTail p = dataPool (prov p) @ held (loadThread (prov p))
     @ concat (map produced (callingContexts (prov p)))"

text \<open>
  The invariant of the unshuffled order: a loading thread exists and holds a sample only
  while a calling context is left; a call in its loop stands where a draw from the whole
  remaining stream would stand, and its wait has left enough weight in the pool unless
  the files are exhausted; a call past its loop has drawn what a draw from the whole
  remaining stream gives.
\<close>

definition fifoInv :: "config \<Rightarrow> protocol \<Rightarrow> bool" where
  "fifoInv cfg p =
     (loadThread (prov p) \<noteq> None
      \<and> (held (loadThread (prov p)) \<noteq> [] \<longrightarrow> callingContexts (prov p) \<noteq> [])
      \<and> (case caller p of
           Drawing sz data bsize \<Rightarrow>
             drawLoop True (calcBatchSize cfg) rndZero sz 0 (data @ pendingTail p) [] 0
               = drawLoop True (calcBatchSize cfg) rndZero sz 0 (pendingTail p) data bsize
             \<and> (callingContexts (prov p) = []
                \<or> unat sz \<le> poolWeight (calcBatchSize cfg) (data @ dataPool (prov p)))
         | Finishing sz data bsize \<Rightarrow>
             drawLoop True (calcBatchSize cfg) rndZero sz 0 (data @ pendingTail p) [] 0
               = Inr (pendingTail p, data, bsize, 0)
         | _ \<Rightarrow> True))"

text \<open>The results still to come from a state, given the sizes of the calls to come.\<close>

definition expectedFrom :: "weigher \<Rightarrow> consumer \<Rightarrow> size_t list \<Rightarrow> handle list
    \<Rightarrow> (size_t \<times> handle list) list" where
  "expectedFrom calc c szs strm =
     (case c of
        Idle \<Rightarrow> expectedBatches calc szs strm
      | WaitPull sz \<Rightarrow> expectedBatches calc (sz # szs) strm
      | Drawing sz data bsize \<Rightarrow> expectedBatches calc (sz # szs) strm
      | Finishing sz data bsize \<Rightarrow> expectedBatches calc (sz # szs) strm)"

text \<open>
  Two schedules of the first example provider with four calls of size 2: the loading
  thread runs as far as it can before each call, or the calls are made as early as
  possible.
\<close>

definition pullBatch :: "action list" where
  "pullBatch = [Call 2, Pull 0, Pull 0, Pull 0, Pull 0, Pull 0]"

definition scheduleA :: "action list" where
  "scheduleA = replicate 11 (Load 0) @ pullBatch @ replicate 6 (Load 0) @ pullBatch
     @ replicate 4 (Load 0) @ pullBatch @ [Call 2, Pull 0, Pull 0, Pull 0]"

definition scheduleB :: "action list" where
  "scheduleB = [Call 2] @ replicate 6 (Load 0) @ [Pull 0, Pull 0, Pull 0, Pull 0, Pull 0, Call 2]
     @ replicate 7 (Load 0) @ [Pull 0, Pull 0, Pull 0, Pull 0, Pull 0, Call 2]
     @ replicate 8 (Load 0) @ [Pull 0, Pull 0, Pull 0, Pull 0, Pull 0, Call 2, Pull 0]"

definition exampleBatches :: "(size_t \<times> handle list) list" where
  "exampleBatches = [(2, [sample 11, sample 12]), (2, [sample 13, sample 21]),
     (2, [sample 22, sample 23]), (0, [])]"

definition exampleEnded :: provider where
  "exampleEnded = \<lparr> loadThread = Some Ended, exit_flag = False, callingContexts = [],
     dataPool = [], poolActualSize = 0, cache = NoCacheStrategy \<rparr>"

definition exampleDoneA :: protocol where
  "exampleDoneA = \<lparr> prov = exampleEnded, caller = Idle, returned = exampleBatches \<rparr>"

definition exampleDoneB :: protocol where
  "exampleDoneB = \<lparr> prov = exampleEnded, caller = Drawing 2 [] 0,
     returned = take 3 exampleBatches \<rparr>"

text \<open>
  Example inputs for the cache: random values that differ from call to call, a
  shuffling provider, its state after a first pass that handed out three samples, and
  that state after \<^verbatim>\<open>reset\<close> and after the replayed pass; a provider whose only
  file yields nothing, after a first pass and after the next \<^verbatim>\<open>reset\<close>.
\<close>

definition rndEach :: "nat \<Rightarrow> nat \<Rightarrow> nat" where
  "rndEach n k = n + k + 1"

definition shuffleConfig :: config where
  "shuffleConfig = \<lparr> skipShuffle = False, poolSize = 4, canOverBatchSize = False,
     calcBatchSize = None, headers = [indexHeader], useGpu = False,
     generators = [[sample 11, sample 12], [sample 21]] \<rparr>"

definition passedState :: provider where
  "passedState = \<lparr> loadThread = Some Ended, exit_flag = False, callingContexts = [],
     dataPool = [], poolActualSize = 0,
     cache = CacheOnePassInMemory [] [sample 11, sample 12, sample 21] \<rparr>"

definition replayStart :: provider where
  "replayStart = \<lparr> loadThread = None, exit_flag = False, callingContexts = [],
     dataPool = [], poolActualSize = 0,
     cache = CacheOnePassInMemory [sample 11, sample 12, sample 21] [] \<rparr>"

definition replayEnd :: provider where
  "replayEnd = \<lparr> loadThread = None, exit_flag = False, callingContexts = [],
     dataPool = [], poolActualSize = 0,
     cache = CacheOnePassInMemory [] [sample 12, sample 11, sample 21] \<rparr>"

definition emptyConfig :: config where
  "emptyConfig = \<lparr> skipShuffle = True, poolSize = 4, canOverBatchSize = False,
     calcBatchSize = None, headers = [indexHeader], useGpu = False, generators = [[]] \<rparr>"

definition emptyFresh :: provider where
  "emptyFresh = \<lparr> loadThread = None, exit_flag = True, callingContexts = [],
     dataPool = [], poolActualSize = 7, cache = CacheOnePassInMemory [] [] \<rparr>"

definition emptyStarted :: provider where
  "emptyStarted = \<lparr> loadThread = Some AtLoopHead, exit_flag = False, callingContexts = [[]],
     dataPool = [], poolActualSize = 0, cache = CacheOnePassInMemory [] [] \<rparr>"

definition emptyPassed :: provider where
  "emptyPassed = \<lparr> loadThread = Some Ended, exit_flag = False, callingContexts = [],
     dataPool = [], poolActualSize = 0, cache = CacheOnePassInMemory [] [] \<rparr>"

text \<open>The pool a call would draw from, empty when there is none.\<close>

definition poolList :: "provider \<Rightarrow> handle list" where
  "poolList s = (case poolOf s of None \<Rightarrow> [] | Some pool \<Rightarrow> pool)"







text \<open>
  More states of the first example provider: a call of size 4 entered with three samples
  in the pool, and the batch and the state a call of size 2 leaves there.
\<close>

definition exampleStuck :: protocol where
  "exampleStuck = \<lparr> prov = \<lparr> loadThread = Some (Waiting (PySeq [PyInt 21]) 1),
       exit_flag = False, callingContexts = [[sample 22, sample 23]],
       dataPool = [sample 11, sample 12, sample 13], poolActualSize = 3,
       cache = NoCacheStrategy \<rparr>,
     caller = WaitPull 4, returned = [] \<rparr>"



text \<open>
  A strict provider with capacity 4 whose weigher returns 1 for the first sample and -1,
  which \<^verbatim>\<open>castInt<size_t>\<close> makes \<open>2\<^sup>6\<^sup>4 - 1\<close>, for the second; its state after
  \<^verbatim>\<open>reset\<close>, a schedule, and the state the schedule leads to.
\<close>

definition wrapConfig :: config where
  "wrapConfig = \<lparr> skipShuffle = True, poolSize = 4, canOverBatchSize = False,
     calcBatchSize = fieldWeigher, headers = [indexHeader], useGpu = False,
     generators = [[sample 1, sample (- 1)]] \<rparr>"

definition wrapStart :: provider where
  "wrapStart = \<lparr> loadThread = Some AtLoopHead, exit_flag = False,
     callingContexts = [[sample 1, sample (- 1)]], dataPool = [], poolActualSize = 0,
     cache = NoCacheStrategy \<rparr>"

definition wrapSchedule :: "action list" where
  "wrapSchedule = replicate 8 (Load 0) @ [Call 1, Pull 0, Pull 0, Pull 0, Pull 0]"

definition wrapEnd :: protocol where
  "wrapEnd = \<lparr> prov = \<lparr> loadThread = Some Ended, exit_flag = False, callingContexts = [],
       dataPool = [sample (- 1)], poolActualSize = 18446744073709551615,
       cache = NoCacheStrategy \<rparr>,
     caller = Idle, returned = [(1, [sample 1])] \<rparr>"




section \<open>Properties of the drawing loop\<close>

lemma moveSample_no_OutOfRange:
  "pool \<noteq> [] \<Longrightarrow> moveSample skip r pool \<noteq> Inl OutOfRange"
  by (auto simp: moveSample_def Let_def)

lemma moveSample_mset:
  assumes "moveSample skip r pool = Inr (h, pool')"
  shows "mset pool = add_mset h (mset pool') \<and> h \<noteq> None"
proof (cases skip)
  case True
  with assms show ?thesis
    by (cases pool) (auto simp: moveSample_def Let_def split: if_splits)
next
  case False
  from assms False have ne: "pool \<noteq> []"
    by (auto simp: moveSample_def Let_def split: if_splits)
  define i where "i = r mod length pool"
  define n where "n = length pool - 1"
  have i: "i < length pool" and n: "n < length pool"
    using ne by (auto simp: i_def n_def)
  define q where "q = (if i \<noteq> n then pool[i := last pool, n := pool ! i] else pool)"
  have lastp: "last pool = pool ! n"
    using ne by (simp add: last_conv_nth n_def)
  have mq: "mset q = mset pool"
    using i n by (auto simp: q_def lastp mset_swap)
  have lq: "length q = length pool"
    by (simp add: q_def)
  have qne: "q \<noteq> []"
    using ne lq by auto
  have lastq: "last q = pool ! i"
    using i n lq qne by (auto simp: q_def last_conv_nth n_def)
  from assms False ne have res: "h = last q" "pool' = butlast q" "pool ! i \<noteq> None"
    by (auto simp: moveSample_def Let_def i_def n_def q_def split: if_splits)
  have "q = butlast q @ [last q]"
    using qne by simp
  then have "mset q = mset (butlast q) + mset [last q]"
    by (metis mset_append)
  with mq res lastq show ?thesis by simp
qed

lemma moveSample_fifo:
  "moveSample True r pool = Inr (h, pool') \<Longrightarrow> pool = h # pool'"
  by (cases pool) (auto simp: moveSample_def Let_def split: if_splits)

lemma weightSum_Nil [simp]: "weightSum calc [] = 0"
  by (simp add: weightSum_def)

lemma weightSum_Cons [simp]: "weightSum calc (h # hs) = weightVal calc h + weightSum calc hs"
  by (simp add: weightSum_def)

lemma weightSum_append [simp]:
  "weightSum calc (xs @ ys) = weightSum calc xs + weightSum calc ys"
  by (simp add: weightSum_def)

lemma drawLoop_no_OutOfRange:
  "drawLoop skip calc rnd sz k pool data bsize \<noteq> Inl OutOfRange"
proof (induction skip calc rnd sz k pool data bsize rule: drawLoop.induct)
  case (1 skip calc rnd sz k pool data bsize)
  show ?case
  proof (cases "bsize < sz \<and> pool \<noteq> []")
    case False
    then show ?thesis by (subst drawLoop.simps) auto
  next
    case True
    then have ne: "pool \<noteq> []" by simp
    show ?thesis
    proof (cases "moveSample skip (rnd k) pool")
      case (Inl e)
      with moveSample_no_OutOfRange[OF ne, of skip "rnd k"] True show ?thesis
        by (subst drawLoop.simps) auto
    next
      case (Inr hp)
      obtain h pool' where hp: "hp = (h, pool')" by (cases hp)
      show ?thesis
      proof (cases "drawnWeight calc h")
        case (Inl e)
        then have "e = BadBatchSize"
          by (auto simp: drawnWeight_def split: option.splits)
        with Inl Inr hp True show ?thesis by (subst drawLoop.simps) auto
      next
        case w: (Inr w)
        from "1.IH"[OF True Inr hp[symmetric] w] Inr hp w True show ?thesis
          by (subst drawLoop.simps) auto
      qed
    qed
  qed
qed

lemma drawLoop_unfold:
  assumes "drawLoop skip calc rnd sz k pool data bsize = Inr res"
    and "bsize < sz \<and> pool \<noteq> []"
  obtains h p1 w where
    "moveSample skip (rnd k) pool = Inr (h, p1)" "drawnWeight calc h = Inr w"
    "drawLoop skip calc rnd sz (if skip then k else Suc k) p1 (data @ [h]) (bsize + w) = Inr res"
  using assms by (subst (asm) drawLoop.simps) (auto split: sum.splits)

lemma drawLoop_stop:
  assumes "drawLoop skip calc rnd sz k pool data bsize = Inr res"
    and "\<not> (bsize < sz \<and> pool \<noteq> [])"
  shows "res = (pool, data, bsize, k)"
  using assms by (subst (asm) drawLoop.simps) auto

lemma drawLoop_result:
  "drawLoop skip calc rnd sz k pool data bsize = Inr (pool', data', bsize', k') \<Longrightarrow>
   \<exists>drawn. data' = data @ drawn \<and> mset pool = mset pool' + mset drawn \<and> None \<notin> set drawn
     \<and> bsize' = bsize + weightSum calc drawn
     \<and> \<not> (bsize' < sz \<and> pool' \<noteq> [])
     \<and> (drawn \<noteq> [] \<longrightarrow> bsize + weightSum calc (butlast drawn) < sz)
     \<and> (skip \<longrightarrow> pool = drawn @ pool')"
proof (induction skip calc rnd sz k pool data bsize rule: drawLoop.induct)
  case (1 skip calc rnd sz k pool data bsize)
  show ?case
  proof (cases "bsize < sz \<and> pool \<noteq> []")
    case False
    from drawLoop_stop[OF "1.prems" False] False show ?thesis by auto
  next
    case True
    from "1.prems" True obtain h p1 w where
      mv: "moveSample skip (rnd k) pool = Inr (h, p1)" and
      dw: "drawnWeight calc h = Inr w" and
      rec: "drawLoop skip calc rnd sz (if skip then k else Suc k) p1 (data @ [h]) (bsize + w)
              = Inr (pool', data', bsize', k')"
      by (rule drawLoop_unfold)
    from "1.IH"[OF True mv refl dw rec] obtain d1 where
      d1: "data' = (data @ [h]) @ d1" "mset p1 = mset pool' + mset d1" "None \<notin> set d1"
          "bsize' = bsize + w + weightSum calc d1" "\<not> (bsize' < sz \<and> pool' \<noteq> [])"
          "d1 \<noteq> [] \<longrightarrow> bsize + w + weightSum calc (butlast d1) < sz"
          "skip \<longrightarrow> p1 = d1 @ pool'"
      by blast
    have wv: "weightVal calc h = w"
      using dw by (simp add: weightVal_def)
    from moveSample_mset[OF mv] have m: "mset pool = add_mset h (mset p1)" "h \<noteq> None"
      by auto
    have fifo: "skip \<longrightarrow> pool = (h # d1) @ pool'"
      using mv d1(7) by (auto dest: moveSample_fifo)
    have "data' = data @ (h # d1)"
      using d1(1) by simp
    moreover have "mset pool = mset pool' + mset (h # d1)"
      using m d1(2) by simp
    moreover have "None \<notin> set (h # d1)"
      using m d1(3) by auto
    moreover have "bsize' = bsize + weightSum calc (h # d1)"
      using d1(4) wv by (simp add: add.assoc)
    moreover have "bsize + weightSum calc (butlast (h # d1)) < sz"
      using d1(6) True wv by (auto simp: add.assoc)
    ultimately show ?thesis
      using d1(5) fifo by blast
  qed
qed

lemma word_less_Suc:
  fixes b sz :: size_t
  assumes "b < sz"
  shows "b + 1 \<le> sz" "unat (b + 1) = Suc (unat b)"
proof -
  show "b + 1 \<le> sz" using assms by (rule inc_le)
  have "unat b < unat sz"
    using assms by (simp add: word_less_nat_alt)
  moreover have "unat sz < 2 ^ 64"
    using unsigned_less[of sz, where ?'a = nat] by simp
  ultimately have "unat b + unat (1 :: size_t) < 2 ^ LENGTH(64)"
    by simp
  then show "unat (b + 1) = Suc (unat b)"
    by (simp add: unat_add_lem[THEN iffD1])
qed

lemma drawLoop_default:
  "drawLoop skip None rnd sz k pool data bsize = Inr (pool', data', bsize', k') \<Longrightarrow>
   bsize \<le> sz \<Longrightarrow>
   bsize' \<le> sz \<and> unat bsize' + length data = unat bsize + length data'"
proof (induction skip "None :: weigher" rnd sz k pool data bsize rule: drawLoop.induct)
  case (1 skip rnd sz k pool data bsize)
  show ?case
  proof (cases "bsize < sz \<and> pool \<noteq> []")
    case False
    from drawLoop_stop[OF "1.prems"(1) False] "1.prems"(2) show ?thesis by auto
  next
    case True
    from "1.prems"(1) True obtain h p1 w where
      mv: "moveSample skip (rnd k) pool = Inr (h, p1)" and
      dw: "drawnWeight None h = Inr w" and
      rec: "drawLoop skip None rnd sz (if skip then k else Suc k) p1 (data @ [h]) (bsize + w)
              = Inr (pool', data', bsize', k')"
      by (rule drawLoop_unfold)
    have w: "w = 1"
      using dw by (simp add: drawnWeight_def)
    from True have lt: "bsize < sz" by simp
    from "1.hyps"[OF True mv refl dw rec] word_less_Suc[OF lt] w show ?thesis by auto
  qed
qed

lemma poolWeight_simps [simp]:
  "poolWeight calc [] = 0"
  "poolWeight calc (h # hs) = unat (weightVal calc h) + poolWeight calc hs"
  "poolWeight calc (xs @ ys) = poolWeight calc xs + poolWeight calc ys"
  by (simp_all add: poolWeight_def)

lemma poolWeight_mset:
  assumes "mset xs = mset ys"
  shows "poolWeight calc xs = poolWeight calc ys"
proof -
  have "poolWeight calc zs = sum_mset (image_mset (\<lambda>h. unat (weightVal calc h)) (mset zs))" for zs
    unfolding poolWeight_def by (metis mset_map sum_mset_sum_list)
  with assms show ?thesis by simp
qed

lemma unat_weightSum:
  "poolWeight calc hs < 2 ^ 64 \<Longrightarrow> unat (weightSum calc hs) = poolWeight calc hs"
proof (induction hs)
  case Nil
  then show ?case by simp
next
  case (Cons h hs)
  then have "unat (weightSum calc hs) = poolWeight calc hs" by simp
  moreover from Cons.prems
  have "unat (weightVal calc h) + poolWeight calc hs < 2 ^ LENGTH(64)" by simp
  ultimately show ?case
    by (simp add: unat_add_lem[THEN iffD1])
qed

lemma poolWeight_pos:
  "hs \<noteq> [] \<Longrightarrow> \<forall>h\<in>set hs. weightVal calc h \<noteq> 0 \<Longrightarrow> 0 < poolWeight calc hs"
  by (cases hs) (auto simp: unat_gt_0)

lemma drawSamples_nonzero:
  assumes res: "drawSamples skip calc rnd sz pool = Inr (pool', data, bsize, k)"
    and sz: "0 < sz" and ne: "pool \<noteq> []"
    and nz: "\<forall>h\<in>set pool. weightVal calc h \<noteq> 0"
    and fit: "poolWeight calc pool < 2 ^ 64"
  shows "bsize \<noteq> 0 \<and> data \<noteq> []"
proof -
  from drawLoop_result[OF res[unfolded drawSamples_def]]
  have m: "mset pool = mset pool' + mset data" and b: "bsize = weightSum calc data"
    and stop: "\<not> (bsize < sz \<and> pool' \<noteq> [])"
    by auto
  have dne: "data \<noteq> []"
  proof
    assume "data = []"
    with m b have "mset pool' = mset pool" "bsize = 0"
      by auto
    with ne have "pool' \<noteq> []" "bsize = 0"
      by auto
    with stop sz show False by simp
  qed
  have "mset pool = mset (pool' @ data)" using m by simp
  from poolWeight_mset[OF this, of calc]
  have le: "poolWeight calc data \<le> poolWeight calc pool" by simp
  have "set data \<subseteq> set pool"
    using m by (metis mset_subset_eq_add_right set_mset_mono set_mset_mset)
  with nz have "\<forall>h\<in>set data. weightVal calc h \<noteq> 0" by blast
  from poolWeight_pos[OF dne this] have "0 < poolWeight calc data" .
  moreover have "unat bsize = poolWeight calc data"
    unfolding b using le fit by (intro unat_weightSum) simp
  ultimately show ?thesis using dne by (auto simp: unat_gt_0)
qed

section \<open>One slot of an assembled batch\<close>

lemma mapE_Inr:
  "mapE f xs = Inr ys \<Longrightarrow> length ys = length xs \<and> (\<forall>i<length xs. f (xs ! i) = Inr (ys ! i))"
proof (induction xs arbitrary: ys)
  case Nil
  then show ?case by simp
next
  case (Cons x xs)
  from Cons.prems obtain y ys' where y: "f x = Inr y" and ys': "mapE f xs = Inr ys'" and e: "ys = y # ys'"
    by (auto split: sum.splits)
  from Cons.IH[OF ys'] y e show ?case
    by (auto simp: nth_Cons split: nat.splits)
qed

lemma scanSample_Inr:
  assumes "scanSample phase d st = Inr st'"
  shows "length st' = length st"
    and "i < length st \<Longrightarrow> phase (fst (st ! i)) (snd (st ! i)) (slotField i d) = Inr (st' ! i)"
proof -
  from assms obtain s where s: "seqItems d = Some s"
    and m: "mapE (\<lambda>(i, (sc, a)). phase sc a (seqGet s i)) (zip [0..<length st] st) = Inr st'"
    by (auto simp: scanSample_def split: option.splits)
  from mapE_Inr[OF m] show "length st' = length st" by simp
  assume i: "i < length st"
  with mapE_Inr[OF m] have "(\<lambda>(i, (sc, a)). phase sc a (seqGet s i)) (zip [0..<length st] st ! i) = Inr (st' ! i)"
    by simp
  with i s show "phase (fst (st ! i)) (snd (st ! i)) (slotField i d) = Inr (st' ! i)"
    by (simp add: slotField_def case_prod_beta)
qed

lemma prepareEach_foldE:
  "prepareEach sc a objs = foldE (\<lambda>x (sc, a). prepare sc a x) objs (sc, a)"
  by (induction objs arbitrary: sc a) (auto split: sum.splits)

lemma fillEach_foldE:
  "fillEach sc a objs = foldE (\<lambda>x (sc, a). fill sc a x) objs (sc, a)"
  by (induction objs arbitrary: sc a) (auto split: sum.splits)

lemma foldE_scanSample:
  assumes "foldE (scanSample phase) data st = Inr st'"
  shows "length st' = length st \<and>
    (\<forall>i<length st. foldE (\<lambda>x (sc, a). phase sc a x) (map (slotField i) data) (st ! i) = Inr (st' ! i))"
  using assms
proof (induction data arbitrary: st)
  case Nil
  then show ?case by simp
next
  case (Cons d data)
  from Cons.prems obtain st1 where s1: "scanSample phase d st = Inr st1"
    and r: "foldE (scanSample phase) data st1 = Inr st'"
    by (auto split: sum.splits)
  from Cons.IH[OF r] scanSample_Inr[OF s1] show ?case
    by (auto simp: case_prod_beta)
qed

lemma assembleBatch_slot:
  assumes ok: "assembleBatch hs data = Inr args" and i: "i < length hs"
  shows "length args = length hs \<and>
    (\<exists>sc. create (hs ! i) = Inr sc \<and> scanSlot sc (map (slotField i) data) = Inr (args ! i))"
proof -
  from ok obtain scs st2 st4 st5 where
    c: "mapE create hs = Inr scs" and
    p: "foldE (scanSample prepare) data (map (\<lambda>sc. startPrepare sc emptyArgument) scs) = Inr st2" and
    sf: "mapE (\<lambda>(sc, a). startFill sc a) (map (\<lambda>(sc, a). finishPrepare sc a) st2) = Inr st4" and
    f: "foldE (scanSample fill) data st4 = Inr st5" and
    r: "args = map (\<lambda>(sc, a). snd (finishFill sc a)) st5"
    by (auto simp: assembleBatch_def Let_def split: sum.splits)
  from mapE_Inr[OF c] i have lc: "length scs = length hs" and ci: "create (hs ! i) = Inr (scs ! i)"
    by auto
  from foldE_scanSample[OF p] i lc have l2: "length st2 = length hs"
    and pi: "foldE (\<lambda>x (sc, a). prepare sc a x) (map (slotField i) data)
               (startPrepare (scs ! i) emptyArgument) = Inr (st2 ! i)"
    by auto
  from mapE_Inr[OF sf] i l2 have l4: "length st4 = length hs"
    and si: "startFill (fst (finishPrepare (fst (st2 ! i)) (snd (st2 ! i))))
               (snd (finishPrepare (fst (st2 ! i)) (snd (st2 ! i)))) = Inr (st4 ! i)"
    by (auto simp: case_prod_beta)
  from foldE_scanSample[OF f] i l4 have l5: "length st5 = length hs"
    and fi: "foldE (\<lambda>x (sc, a). fill sc a x) (map (slotField i) data) (st4 ! i) = Inr (st5 ! i)"
    by auto
  have "scanSlot (scs ! i) (map (slotField i) data) = Inr (args ! i)"
    using pi si fi r i l5
    by (cases "startPrepare (scs ! i) emptyArgument"; cases "st2 ! i"; cases "st4 ! i"; cases "st5 ! i")
       (auto simp: scanSlot_def prepareEach_foldE fillEach_foldE case_prod_beta split: prod.splits)
  with ci r l5 show ?thesis by auto
qed

section \<open>The sparse scanners\<close>

lemma sparse_prepareEach:
  "prepareEach (sparseScanner wv d nnz h) a objs = Inr (sc', a') \<Longrightarrow>
   sc' = sparseScanner wv d (nnz + sum_list (map elementCount objs)) (h + length objs) \<and> a' = a"
proof (induction objs arbitrary: nnz h)
  case Nil
  then show ?case by simp
next
  case (Cons x xs)
  from Cons.prems obtain ys where ys: "seqItems x = Some ys"
    and r: "prepareEach (sparseScanner wv d (nnz + length ys) (h + 1)) a xs = Inr (sc', a')"
    by (auto simp: sparseScanner_def split: if_splits option.splits)
  from Cons.IH[OF r] ys show ?case
    by (simp add: elementCount_def add.assoc)
qed

lemma setData_fold:
  "foldE (setData wv) xs (cols, vals, nnz) = Inr (cols', vals', nnz') \<Longrightarrow>
   length cols' = length cols \<and> nnz' = nnz + length xs \<and> (vals' = None \<longleftrightarrow> vals = None)"
proof (induction xs arbitrary: cols vals nnz)
  case Nil
  then show ?case by simp
next
  case (Cons x xs)
  from Cons.prems obtain c1 v1 n1 where
    s: "setData wv x (cols, vals, nnz) = Inr (c1, v1, n1)" and
    r: "foldE (setData wv) xs (c1, v1, n1) = Inr (cols', vals', nnz')"
    by (auto split: sum.splits)
  from s have "length c1 = length cols \<and> n1 = nnz + 1 \<and> (v1 = None \<longleftrightarrow> vals = None)"
    by (auto simp: setData_def bufWrite_def split: if_splits option.splits sum.splits)
  with Cons.IH[OF r] show ?case by simp
qed

lemma bufRead_take:
  assumes "bufRead b (h - 1) = Inr prev" and "take h b = map Some offs" and "0 < h"
  shows "offs \<noteq> [] \<and> last offs = prev \<and> h \<le> length b"
proof -
  from assms(1) have lt: "h - 1 < length b" and v: "b ! (h - 1) = Some prev"
    by (auto simp: bufRead_def split: if_splits option.splits)
  with assms(3) have hl: "h \<le> length b" by simp
  with assms(2) have lo: "length offs = h"
    by (metis length_map length_take min.absorb2)
  with assms(3) have ne: "offs \<noteq> []" by auto
  have "take h b ! (h - 1) = b ! (h - 1)" using assms(3) by simp
  with assms(2) v lo assms(3) have "Some (offs ! (h - 1)) = Some prev"
    by (metis diff_less length_map nth_map zero_less_one)
  with lo ne show ?thesis
    using hl by (simp add: last_conv_nth)
qed

lemma bufWrite_take:
  assumes "bufWrite b h v = Inr b'" and "take h b = map Some offs"
  shows "length b' = length b \<and> take (Suc h) b' = map Some (offs @ [v])"
proof -
  from assms(1) have lt: "h < length b" and b': "b' = b[h := Some v]"
    by (auto simp: bufWrite_def split: if_splits)
  have "take (Suc h) b' = take h b' @ [b' ! h]"
    using lt b' by (simp add: take_Suc_conv_app_nth)
  with lt b' assms(2) show ?thesis by simp
qed

lemma sparseFill_rows:
  assumes f: "sparseFill wv nnz h a obj = Inr (nnz', a')"
    and a: "arg_value a = Some (CpuSparseMatrix H W rows cols vals)"
    and t: "take h rows = map Some offs"
  shows "\<exists>rows' cols' vals'.
      a' = a\<lparr>arg_value := Some (CpuSparseMatrix H W rows' cols' vals')\<rparr>
      \<and> length rows' = length rows \<and> length cols' = length cols
      \<and> (vals' = None \<longleftrightarrow> vals = None)
      \<and> offs \<noteq> []
      \<and> take (Suc h) rows' = map Some (offs @ [last offs + of_nat (elementCount obj)])
      \<and> nnz' = nnz + elementCount obj"
proof -
  from f a obtain xs prev rows' cols' vals' where
    xs: "seqItems obj = Some xs" and h: "0 < h" and
    rd: "bufRead rows (h - 1) = Inr prev" and
    wr: "bufWrite rows h (prev + of_nat (length xs)) = Inr rows'" and
    fo: "foldE (setData wv) xs (cols, vals, nnz) = Inr (cols', vals', nnz')" and
    a': "a' = a\<lparr>arg_value := Some (CpuSparseMatrix H W rows' cols' vals')\<rparr>"
    by (auto simp: sparseFill_def split: option.splits if_splits sum.splits)
  from bufRead_take[OF rd t h] have o: "offs \<noteq> []" "last offs = prev" by auto
  from bufWrite_take[OF wr t] setData_fold[OF fo] a' o xs show ?thesis
    by (auto simp: elementCount_def)
qed

lemma sparse_fillEach:
  assumes "fillEach (sparseScanner wv d nnz h) a objs = Inr (sc', a')"
    and "arg_value a = Some (CpuSparseMatrix H W rows cols vals)"
    and "take h rows = map Some offs" and "offs \<noteq> []"
  shows "\<exists>rows' cols' vals'.
      a' = a\<lparr>arg_value := Some (CpuSparseMatrix H W rows' cols' vals')\<rparr>
      \<and> length rows' = length rows \<and> length cols' = length cols
      \<and> (vals' = None \<longleftrightarrow> vals = None)
      \<and> take (h + length objs) rows'
          = map Some (offs @ offsetsFrom (last offs) (map elementCount objs))
      \<and> sc' = sparseScanner wv d (nnz + sum_list (map elementCount objs)) (h + length objs)"
  using assms
proof (induction objs arbitrary: nnz h a rows cols vals offs)
  case Nil
  then show ?case by (cases a) auto
next
  case (Cons x xs)
  from Cons.prems(1) obtain nnz1 a1 where
    f: "sparseFill wv nnz h a x = Inr (nnz1, a1)" and
    r: "fillEach (sparseScanner wv d nnz1 (h + 1)) a1 xs = Inr (sc', a')"
    by (auto simp: sparseScanner_def split: if_splits sum.splits)
  from sparseFill_rows[OF f Cons.prems(2,3)] obtain rows1 cols1 vals1 where
    a1: "a1 = a\<lparr>arg_value := Some (CpuSparseMatrix H W rows1 cols1 vals1)\<rparr>" and
    l1: "length rows1 = length rows" "length cols1 = length cols" "vals1 = None \<longleftrightarrow> vals = None" and
    t1: "take (h + 1) rows1 = map Some (offs @ [last offs + of_nat (elementCount x)])" and
    n1: "nnz1 = nnz + elementCount x"
    by auto
  have av: "arg_value a1 = Some (CpuSparseMatrix H W rows1 cols1 vals1)"
    using a1 by simp
  from Cons.IH[OF r av t1] obtain rows' cols' vals' where
    "a' = a1\<lparr>arg_value := Some (CpuSparseMatrix H W rows' cols' vals')\<rparr>"
    "length rows' = length rows1" "length cols' = length cols1" "vals' = None \<longleftrightarrow> vals1 = None"
    "take (h + 1 + length xs) rows'
       = map Some ((offs @ [last offs + of_nat (elementCount x)])
           @ offsetsFrom (last (offs @ [last offs + of_nat (elementCount x)])) (map elementCount xs))"
    "sc' = sparseScanner wv d (nnz1 + sum_list (map elementCount xs)) (h + 1 + length xs)"
    by auto
  with a1 l1 n1 show ?case
    by (auto simp: add.assoc)
qed

lemma offsetsFrom_length [simp]: "length (offsetsFrom v ns) = length ns"
  by (induction ns arbitrary: v) auto

lemma offsetsFrom_nth:
  "k \<le> length ns \<Longrightarrow> (v # offsetsFrom v ns) ! k = v + of_nat (sum_list (take k ns))"
proof (induction ns arbitrary: v k)
  case Nil
  then show ?case by simp
next
  case (Cons n ns)
  show ?case
  proof (cases k)
    case 0
    then show ?thesis by simp
  next
    case (Suc j)
    with Cons.prems have "j \<le> length ns" by simp
    from Cons.IH[OF this, of "v + of_nat n"] Suc show ?thesis
      by (simp add: add.assoc)
  qed
qed

lemma sint_of_nat_small:
  assumes "n < 2 ^ 31"
  shows "sint (of_nat n :: int32) = int n"
proof -
  have "int n < 2 ^ 31" using assms by (metis of_nat_less_numeral_power_cancel_iff)
  then have "signed_take_bit 31 (int n) = int n"
    by (intro signed_take_bit_int_eq_self) auto
  then show ?thesis by (simp add: signed_of_nat)
qed

lemma sum_list_take_le:
  fixes ns :: "nat list"
  shows "sum_list (take k ns) \<le> sum_list ns"
proof -
  have "sum_list ns = sum_list (take k ns) + sum_list (drop k ns)"
    by (metis append_take_drop_id sum_list_append)
  then show ?thesis by simp
qed

lemma sum_list_take_mono:
  fixes ns :: "nat list"
  shows "sum_list (take k ns) \<le> sum_list (take (Suc k) ns)"
proof (cases "k < length ns")
  case True
  then show ?thesis by (simp add: take_Suc_conv_app_nth)
next
  case False
  then show ?thesis by simp
qed

text \<open>The properties of an offset array that starts at 0, when the total fits an int.\<close>

lemma offsets_props:
  assumes "sum_list ns < 2 ^ 31" and "offs = 0 # offsetsFrom 0 ns"
  shows "length offs = length ns + 1" "offs ! 0 = 0"
    "\<forall>k<length ns. sint (offs ! k) \<le> sint (offs ! Suc k)"
    "sint (offs ! length ns) = int (sum_list ns)"
proof -
  show "length offs = length ns + 1" "offs ! 0 = 0"
    using assms(2) by simp_all
  have v: "sint (offs ! k) = int (sum_list (take k ns))" if "k \<le> length ns" for k
  proof -
    have "sum_list (take k ns) < 2 ^ 31"
      using sum_list_take_le[of k ns] assms(1) by simp
    from sint_of_nat_small[OF this] offsetsFrom_nth[OF that, of 0] assms(2) show ?thesis
      by simp
  qed
  show "\<forall>k<length ns. sint (offs ! k) \<le> sint (offs ! Suc k)"
    using v sum_list_take_mono[of _ ns] by simp
  show "sint (offs ! length ns) = int (sum_list ns)"
    using v[of "length ns"] by simp
qed

lemma scanSlot_sparse:
  assumes "scanSlot (sparseScanner wv d 0 0) objs = Inr a"
  shows "\<exists>cols vals.
      a = emptyArgument\<lparr>arg_value := Some (CpuSparseMatrix (length objs) d
            (map Some (0 # offsetsFrom 0 (map elementCount objs))) cols vals)\<rparr>
      \<and> length cols = sum_list (map elementCount objs) \<and> (vals = None \<longleftrightarrow> \<not> wv)"
proof -
  define N where "N = sum_list (map elementCount objs)"
  define K where "K = length objs"
  have sp: "startPrepare (sparseScanner wv d 0 0) emptyArgument = (sparseScanner wv d 0 0, emptyArgument)"
    by (simp add: sparseScanner_def)
  from assms sp obtain sc2 a2 where
    p: "prepareEach (sparseScanner wv d 0 0) emptyArgument objs = Inr (sc2, a2)"
    by (auto simp: scanSlot_def split: sum.splits)
  from sparse_prepareEach[OF p] have sc2: "sc2 = sparseScanner wv d N K" and a2: "a2 = emptyArgument"
    by (simp_all add: N_def K_def)
  define rows0 :: "int32 buffer" where "rows0 = replicate (K + 1) None"
  define cols0 :: "int32 buffer" where "cols0 = replicate N None"
  define vals0 :: "real buffer option" where "vals0 = (if wv then Some (replicate N None) else None)"
  have fp: "finishPrepare sc2 a2 = (sparseScanner wv d N K,
      emptyArgument\<lparr>arg_value := Some (CpuSparseMatrix K d rows0 cols0 vals0)\<rparr>)"
    by (simp add: sc2 a2 sparseScanner_def resizeOrCreateSparseMatrix_def rows0_def cols0_def vals0_def)
  define rows1 where "rows1 = rows0[0 := Some (0 :: int32)]"
  define a4 where "a4 = emptyArgument\<lparr>arg_value := Some (CpuSparseMatrix K d rows1 cols0 vals0)\<rparr>"
  have sf: "startFill (sparseScanner wv d N K)
      (emptyArgument\<lparr>arg_value := Some (CpuSparseMatrix K d rows0 cols0 vals0)\<rparr>)
      = Inr (sparseScanner wv d 0 1, a4)"
    by (simp add: sparseScanner_def sparseStartFill_def bufWrite_def rows0_def rows1_def a4_def)
  from assms sp p fp sf obtain sc5 a5 where
    f: "fillEach (sparseScanner wv d 0 1) a4 objs = Inr (sc5, a5)" and
    r: "a = snd (finishFill sc5 a5)"
    by (auto simp: scanSlot_def sc2 a2 split: sum.splits)
  have av: "arg_value a4 = Some (CpuSparseMatrix K d rows1 cols0 vals0)"
    by (simp add: a4_def)
  have t: "take 1 rows1 = map Some [0]"
    by (simp add: rows1_def rows0_def)
  from sparse_fillEach[OF f av t] obtain rows' cols' vals' where
    a5: "a5 = a4\<lparr>arg_value := Some (CpuSparseMatrix K d rows' cols' vals')\<rparr>" and
    l: "length rows' = length rows1" "length cols' = length cols0" "vals' = None \<longleftrightarrow> vals0 = None" and
    t': "take (1 + length objs) rows' = map Some ([0] @ offsetsFrom 0 (map elementCount objs))" and
    sc5: "sc5 = sparseScanner wv d (0 + sum_list (map elementCount objs)) (1 + length objs)"
    by auto
  have "length rows' = 1 + length objs"
    using l(1) by (simp add: rows1_def rows0_def K_def)
  with t' have rows': "rows' = map Some (0 # offsetsFrom 0 (map elementCount objs))"
    by simp
  have "a = a5"
    using r sc5 by (simp add: sparseScanner_def)
  with a5 rows' have "a = emptyArgument\<lparr>arg_value := Some (CpuSparseMatrix (length objs) d
            (map Some (0 # offsetsFrom 0 (map elementCount objs))) cols' vals')\<rparr>"
    by (simp add: a4_def K_def)
  moreover have "length cols' = sum_list (map elementCount objs)"
    using l(2) by (simp add: cols0_def N_def)
  moreover have "vals' = None \<longleftrightarrow> \<not> wv"
    using l(3) by (simp add: vals0_def)
  ultimately show ?thesis by blast
qed

lemma create_sparse:
  assumes "slotType h = ST_NON_SPARSE_VALUE \<or> slotType h = ST_SPARSE_VALUE" "seqType h = SQT_NONE"
  shows "create h = Inr (sparseScanner (slotType h = ST_SPARSE_VALUE) (dim h) 0 0)"
  using assms
  by (auto simp: create_def sparseScanner_def ST_DENSE_def ST_INDEX_def ST_NON_SPARSE_VALUE_def
      ST_SPARSE_VALUE_def)

section \<open>What the scanner operations leave alone\<close>

lemma getSeqStartPos_simps [simp]:
  "getSeqStartPos f (a\<lparr>arg_value := v\<rparr>) = getSeqStartPos f a"
  "getSeqStartPos f (a\<lparr>arg_ids := w\<rparr>) = getSeqStartPos f a"
  "getSeqStartPos f (setSeqStartPos g b a) = (if f = g then Some b else getSeqStartPos f a)"
  by (cases f; cases g; simp add: getSeqStartPos_def setSeqStartPos_def)+

lemma usesField_shape [simp]: "usesField f (shape sc) = usesField f sc"
  by (induction sc) auto

lemma shape_idem [simp]: "shape (shape sc) = shape sc"
  by (induction sc) auto

lemma foldE_cong:
  "(\<And>x s. x \<in> set xs \<Longrightarrow> f x s = g x s) \<Longrightarrow> foldE f xs s = foldE g xs s"
  by (induction xs arbitrary: s) (auto split: sum.splits)

lemma getSize_shape: "getSize (shape sc) obj = getSize sc obj"
proof (induction sc obj rule: getSize.induct)
  case (1 inner cnt f obj)
  show ?case
  proof (cases "seqItems obj")
    case None
    then show ?thesis by simp
  next
    case (Some xs)
    show ?thesis
    proof (cases inner)
      case (SequenceScanner i2 c2 f2)
      have "foldE (\<lambda>x sum. case getSize (shape inner) (Some x) of Inl e \<Rightarrow> Inl e | Inr n \<Rightarrow> Inr (sum + n)) xs 0
          = foldE (\<lambda>x sum. case getSize inner (Some x) of Inl e \<Rightarrow> Inl e | Inr n \<Rightarrow> Inr (sum + n)) xs 0"
        by (rule foldE_cong) (simp add: "1.IH"[OF Some SequenceScanner])
      with Some SequenceScanner show ?thesis by simp
    qed (use Some in auto)
  qed
qed auto

lemma startPrepare_frame:
  "startPrepare sc a = (sc', a') \<Longrightarrow> shape sc' = shape sc \<and> a' = a"
  by (induction sc a arbitrary: sc' a' rule: startPrepare.induct) (auto split: prod.splits)

lemma finishFill_frame:
  "finishFill sc a = (sc', a') \<Longrightarrow> shape sc' = shape sc \<and> a' = a"
  by (induction sc a arbitrary: sc' a' rule: finishFill.induct) (auto split: prod.splits)

lemma prepare_frame:
  "prepare sc a obj = Inr (sc', a') \<Longrightarrow> shape sc' = shape sc \<and> a' = a"
  "prepareEach sc a objs = Inr (sc', a') \<Longrightarrow> shape sc' = shape sc \<and> a' = a"
proof (induction sc a obj and sc a objs arbitrary: sc' a' and sc' a'
    rule: prepare_prepareEach.induct)
  case (5 inner cnt f a obj)
  from "5.prems" obtain xs inner' where
    xs: "seqItems obj = Some xs" and
    p: "prepareEach inner a (map Some xs) = Inr (inner', a')" and
    sc': "sc' = SequenceScanner inner' (cnt + 1) f"
    by (auto split: option.splits sum.splits)
  from "5.IH"[OF xs p] sc' show ?case by simp
next
  case (7 sc a x xs)
  from "7.prems" obtain sc1 a1 where
    p1: "prepare sc a x = Inr (sc1, a1)" and r: "prepareEach sc1 a1 xs = Inr (sc', a')"
    by (auto split: sum.splits)
  from "7.IH"(1)[OF p1] "7.IH"(2)[OF p1 refl r] show ?case by simp
next
  case (3 d nnz height a obj)
  then show ?case by (auto split: option.splits)
next
  case (4 d nnz height a obj)
  then show ?case by (auto split: option.splits)
qed simp_all

lemma finishPrepare_frame:
  "finishPrepare sc a = (sc', a') \<Longrightarrow>
   shape sc' = shape sc \<and> (\<not> usesField f sc \<longrightarrow> getSeqStartPos f a' = getSeqStartPos f a)"
  by (induction sc a arbitrary: sc' a' rule: finishPrepare.induct) (auto split: prod.splits)

lemma startFill_frame:
  "startFill sc a = Inr (sc', a') \<Longrightarrow>
   shape sc' = shape sc \<and> (\<not> usesField f sc \<longrightarrow> getSeqStartPos f a' = getSeqStartPos f a)"
proof (induction sc a arbitrary: sc' a' rule: startFill.induct)
  case (3 inner cnt g a)
  then show ?case by (auto split: option.splits sum.splits)
qed (auto simp: sparseStartFill_def split: option.splits sum.splits Matrix.splits)

lemma denseFill_value: "denseFill d h a obj = Inr a' \<Longrightarrow> \<exists>v. a' = a\<lparr>arg_value := v\<rparr>"
  unfolding denseFill_def
  by (cases "arg_value a") (auto split: Matrix.splits option.splits sum.splits)

lemma indexFill_value: "indexFill c a obj = Inr a' \<Longrightarrow> \<exists>v. a' = a\<lparr>arg_ids := v\<rparr>"
  unfolding indexFill_def
  by (cases "arg_ids a") (auto split: option.splits sum.splits)

lemma sparseFill_value:
  assumes "sparseFill wv n h a obj = Inr (n', a')"
  shows "\<exists>v. a' = a\<lparr>arg_value := v\<rparr>"
proof -
  from assms obtain xs where xs: "seqItems obj = Some xs"
    unfolding sparseFill_def by (cases "seqItems obj") auto
  from assms xs obtain H W rows cols vals where
    m: "arg_value a = Some (CpuSparseMatrix H W rows cols vals)"
    unfolding sparseFill_def
    by (cases "arg_value a") (auto split: Matrix.splits)
  from sparseFill_rows[OF assms m, of "take h (map the rows)"] assms xs m show ?thesis
    unfolding sparseFill_def
    by (auto split: if_splits sum.splits)
qed

lemma baseFill_frame:
  "denseFill d h a obj = Inr a' \<Longrightarrow> getSeqStartPos f a' = getSeqStartPos f a"
  "indexFill c a obj = Inr a' \<Longrightarrow> getSeqStartPos f a' = getSeqStartPos f a"
  "sparseFill wv n h a obj = Inr (n', a') \<Longrightarrow> getSeqStartPos f a' = getSeqStartPos f a"
  using denseFill_value indexFill_value sparseFill_value
  by (fastforce simp del: getSeqStartPos_simps(3))+

lemma fill_frame:
  "fill sc a obj = Inr (sc', a') \<Longrightarrow>
   shape sc' = shape sc \<and> (\<not> usesField f sc \<longrightarrow> getSeqStartPos f a' = getSeqStartPos f a)"
  "fillEach sc a objs = Inr (sc', a') \<Longrightarrow>
   shape sc' = shape sc \<and> (\<not> usesField f sc \<longrightarrow> getSeqStartPos f a' = getSeqStartPos f a)"
proof (induction sc a obj and sc a objs arbitrary: sc' a' and sc' a' rule: fill_fillEach.induct)
  case (5 inner cnt g a obj)
  then show ?case
    by (auto split: option.splits sum.splits if_splits)
next
  case (7 sc a x xs)
  from "7.prems" obtain sc1 a1 where
    f1: "fill sc a x = Inr (sc1, a1)" and r: "fillEach sc1 a1 xs = Inr (sc', a')"
    by (auto split: sum.splits)
  from "7.IH"(1)[OF f1] "7.IH"(2)[OF f1 refl r] show ?case
    by (metis usesField_shape)
next
  case (1 d height a obj)
  then show ?case by (auto split: sum.splits simp: baseFill_frame)
next
  case (2 cnt a obj)
  then show ?case by (auto split: sum.splits simp: baseFill_frame)
next
  case (3 d nnz height a obj)
  then show ?case by (auto split: sum.splits simp: baseFill_frame)
next
  case (4 d nnz height a obj)
  then show ?case by (auto split: sum.splits simp: baseFill_frame)
next
  case (6 sc a)
  then show ?case by simp
qed

section \<open>The sequence scanner\<close>

lemma seq_prepareEach:
  "prepareEach (SequenceScanner inner cnt f) a objs = Inr (sc', a') \<Longrightarrow>
   \<exists>inner'. sc' = SequenceScanner inner' (cnt + length objs) f \<and> shape inner' = shape inner \<and> a' = a"
proof (induction objs arbitrary: inner cnt)
  case Nil
  then show ?case by auto
next
  case (Cons x xs)
  from Cons.prems obtain sc1 a1 where
    p1: "prepare (SequenceScanner inner cnt f) a x = Inr (sc1, a1)" and
    r: "prepareEach sc1 a1 xs = Inr (sc', a')"
    by (auto split: sum.splits)
  from p1 obtain inner1 where sc1: "sc1 = SequenceScanner inner1 (cnt + 1) f"
    by (auto split: option.splits sum.splits)
  from prepare_frame(1)[OF p1] sc1 have s1: "shape inner1 = shape inner" "a1 = a"
    by auto
  from Cons.IH[OF r[unfolded sc1 s1(2)]] s1 show ?case
    by auto
qed

lemma seq_fill:
  assumes f: "fill (SequenceScanner inner cnt f) a obj = Inr (sc', a')"
    and nu: "\<not> usesField f inner"
    and pos: "getSeqStartPos f a = Some pos"
    and t: "take cnt pos = map Some offs"
  shows "\<exists>inner' pos' n. sc' = SequenceScanner inner' (cnt + 1) f \<and> shape inner' = shape inner
      \<and> getSeqStartPos f a' = Some pos' \<and> length pos' = length pos \<and> offs \<noteq> []
      \<and> getSize (SequenceScanner (shape inner) 0 f) obj = Inr n
      \<and> take (cnt + 1) pos' = map Some (offs @ [last offs + of_nat n])"
proof -
  from f pos obtain prev n pos1 xs inner' where
    c: "0 < cnt" and
    rd: "bufRead pos (cnt - 1) = Inr prev" and
    gs: "getSize (SequenceScanner inner cnt f) obj = Inr n" and
    wr: "bufWrite pos cnt (prev + of_nat n) = Inr pos1" and
    xs: "seqItems obj = Some xs" and
    fe: "fillEach inner (setSeqStartPos f pos1 a) (map Some xs) = Inr (inner', a')" and
    sc': "sc' = SequenceScanner inner' (cnt + 1) f"
    by (auto split: option.splits sum.splits if_splits)
  from fill_frame(2)[OF fe, of f] nu
  have fr: "shape inner' = shape inner" "getSeqStartPos f a' = Some pos1"
    by auto
  from bufRead_take[OF rd t c] have o: "offs \<noteq> []" "last offs = prev"
    by auto
  have "getSize (SequenceScanner (shape inner) 0 f) obj = Inr n"
    using gs getSize_shape[of "SequenceScanner inner cnt f" obj] by simp
  with bufWrite_take[OF wr t] sc' fr o show ?thesis
    by auto
qed

lemma seq_fillEach:
  assumes "fillEach (SequenceScanner inner cnt f) a objs = Inr (sc', a')"
    and "\<not> usesField f inner"
    and "getSeqStartPos f a = Some pos"
    and "take cnt pos = map Some offs" and "offs \<noteq> []"
    and "\<And>obj n. getSize (SequenceScanner (shape inner) 0 f) obj = Inr n \<Longrightarrow> n = c obj"
  shows "\<exists>pos'. getSeqStartPos f a' = Some pos' \<and> length pos' = length pos
      \<and> take (cnt + length objs) pos' = map Some (offs @ offsetsFrom (last offs) (map c objs))"
  using assms
proof (induction objs arbitrary: inner cnt a pos offs)
  case Nil
  then show ?case by auto
next
  case (Cons x xs)
  from Cons.prems(1) obtain sc1 a1 where
    f1: "fill (SequenceScanner inner cnt f) a x = Inr (sc1, a1)" and
    r: "fillEach sc1 a1 xs = Inr (sc', a')"
    by (auto split: sum.splits)
  from seq_fill[OF f1 Cons.prems(2,3,4)] obtain inner1 pos1 n where
    sc1: "sc1 = SequenceScanner inner1 (cnt + 1) f" and sh: "shape inner1 = shape inner" and
    p1: "getSeqStartPos f a1 = Some pos1" and l1: "length pos1 = length pos" and
    n: "getSize (SequenceScanner (shape inner) 0 f) x = Inr n" and
    t1: "take (cnt + 1) pos1 = map Some (offs @ [last offs + of_nat n])"
    by blast
  from Cons.prems(6)[OF n] have nc: "n = c x" .
  have nu1: "\<not> usesField f inner1"
    using Cons.prems(2) sh by (metis usesField_shape)
  have "\<exists>pos'. getSeqStartPos f a' = Some pos' \<and> length pos' = length pos1
      \<and> take (cnt + 1 + length xs) pos'
          = map Some ((offs @ [last offs + of_nat n])
              @ offsetsFrom (last (offs @ [last offs + of_nat n])) (map c xs))"
    by (rule Cons.IH[OF r[unfolded sc1] nu1 p1 t1]) (use sh Cons.prems(6) in auto)
  with l1 nc show ?case
    by (auto simp: add.assoc)
qed

lemma scanSlot_seq:
  assumes ok: "scanSlot (SequenceScanner inner 0 f) objs = Inr a"
    and nu: "\<not> usesField f inner"
    and c: "\<And>obj n. getSize (SequenceScanner (shape inner) 0 f) obj = Inr n \<Longrightarrow> n = c obj"
  shows "getSeqStartPos f a = Some (map Some (0 # offsetsFrom 0 (map c objs)))"
proof -
  define K where "K = length objs"
  obtain inner1 where sp: "startPrepare (SequenceScanner inner 0 f) emptyArgument
      = (SequenceScanner inner1 0 f, emptyArgument)" and s1: "shape inner1 = shape inner"
    using startPrepare_frame[of inner emptyArgument]
    by (cases "startPrepare inner emptyArgument") auto
  from ok sp obtain sc2 a2 where
    p: "prepareEach (SequenceScanner inner1 0 f) emptyArgument objs = Inr (sc2, a2)"
    by (auto simp: scanSlot_def split: sum.splits)
  from seq_prepareEach[OF p] obtain inner2 where
    sc2: "sc2 = SequenceScanner inner2 K f" and s2: "shape inner2 = shape inner1" and a2: "a2 = emptyArgument"
    by (auto simp: K_def)
  obtain inner3 a3 where fpi: "finishPrepare inner2
      (setSeqStartPos f (resizeOrCreateVector (K + 1)) emptyArgument) = (inner3, a3)"
    by (cases "finishPrepare inner2 (setSeqStartPos f (resizeOrCreateVector (K + 1)) emptyArgument)")
  have nu2: "\<not> usesField f inner2"
    using nu s1 s2 by (metis usesField_shape)
  from finishPrepare_frame[OF fpi, of f] nu2
  have s3: "shape inner3 = shape inner2" and p3: "getSeqStartPos f a3 = Some (replicate (K + 1) None)"
    by (auto simp: resizeOrCreateVector_def)
  have fp: "finishPrepare sc2 a2 = (SequenceScanner inner3 K f, a3)"
    using fpi by (simp add: sc2 a2)
  from ok sp p fp obtain sc4 a4 where
    sf: "startFill (SequenceScanner inner3 K f) a3 = Inr (sc4, a4)"
    by (auto simp: scanSlot_def split: sum.splits)
  from sf p3 obtain inner4 where
    sfi: "startFill inner3 (setSeqStartPos f ((replicate (K + 1) None)[0 := Some 0]) a3) = Inr (inner4, a4)"
    and sc4: "sc4 = SequenceScanner inner4 1 f"
    by (auto simp: bufWrite_def split: sum.splits)
  have nu3: "\<not> usesField f inner3"
    using nu2 s3 by (metis usesField_shape)
  from startFill_frame[OF sfi, of f] nu3
  have s4: "shape inner4 = shape inner3"
    and p4: "getSeqStartPos f a4 = Some ((replicate (K + 1) None)[0 := Some 0])"
    by auto
  from ok sp p fp sf obtain sc5 a5 where
    fe: "fillEach (SequenceScanner inner4 1 f) a4 objs = Inr (sc5, a5)" and
    r: "a = snd (finishFill sc5 a5)"
    by (auto simp: scanSlot_def sc4 split: sum.splits)
  have sh4: "shape inner4 = shape inner"
    using s1 s2 s3 s4 by simp
  have nu4: "\<not> usesField f inner4"
    using nu sh4 by (metis usesField_shape)
  have t: "take 1 ((replicate (K + 1) None)[0 := Some (0 :: int32)]) = map Some [0]"
    by simp
  have "\<exists>pos'. getSeqStartPos f a5 = Some pos'
      \<and> length pos' = length ((replicate (K + 1) None)[0 := Some (0 :: int32)])
      \<and> take (1 + length objs) pos' = map Some ([0] @ offsetsFrom (last [0]) (map c objs))"
    by (rule seq_fillEach[OF fe nu4 p4 t]) (use c sh4 in auto)
  then obtain pos' where p5: "getSeqStartPos f a5 = Some pos'" and l: "length pos' = K + 1"
    and t': "take (1 + length objs) pos' = map Some (0 # offsetsFrom 0 (map c objs))"
    by auto
  from l t' have "pos' = map Some (0 # offsetsFrom 0 (map c objs))"
    by (simp add: K_def)
  moreover have "a = a5"
    using r finishFill_frame[of sc5 a5] by (cases "finishFill sc5 a5") auto
  ultimately show ?thesis using p5 by simp
qed

lemma isBase_shape [simp]: "isBase (shape sc) = isBase sc"
  by (cases sc) auto

lemma isBase_usesField [simp]: "isBase sc \<Longrightarrow> \<not> usesField f sc"
  by (cases sc) auto

lemma getSize_base:
  assumes "isBase b" and "getSize (SequenceScanner b cnt f) obj = Inr n"
  shows "n = elementCount obj"
  using assms by (cases b) (auto simp: elementCount_def split: option.splits)

lemma foldE_sum:
  assumes "foldE (\<lambda>x sum. case g x of Inl e \<Rightarrow> Inl e | Inr n \<Rightarrow> Inr (sum + n)) xs s = Inr t"
    and "\<And>x m. g x = Inr m \<Longrightarrow> m = c x"
  shows "t = s + sum_list (map c xs)"
  using assms(1)
proof (induction xs arbitrary: s)
  case Nil
  then show ?case by simp
next
  case (Cons x xs)
  from Cons.prems obtain m where m: "g x = Inr m"
    and r: "foldE (\<lambda>x sum. case g x of Inl e \<Rightarrow> Inl e | Inr n \<Rightarrow> Inr (sum + n)) xs (s + m) = Inr t"
    by (auto split: sum.splits)
  from Cons.IH[OF r] assms(2)[OF m] show ?case by (simp add: add.assoc)
qed

lemma getSize_sub:
  assumes b: "isBase b" and g: "getSize (SequenceScanner (SequenceScanner b c2 g) cnt f) obj = Inr n"
  shows "n = innerCount SQT_SUBSEQ obj"
proof -
  from g obtain xs where xs: "seqItems obj = Some xs"
    and fo: "foldE (\<lambda>x sum. case getSize (SequenceScanner b c2 g) (Some x) of
                Inl e \<Rightarrow> Inl e | Inr n \<Rightarrow> Inr (sum + n)) xs 0 = Inr n"
    by (auto split: option.splits)
  have "n = 0 + sum_list (map (\<lambda>x. elementCount (Some x)) xs)"
    by (rule foldE_sum[OF fo]) (rule getSize_base[OF b])
  with xs show ?thesis by (simp add: innerCount_def)
qed

lemma create_seq:
  assumes c: "create h = Inr sc" and s: "seqType h = SQT_SEQ \<or> seqType h = SQT_SUBSEQ"
  shows "\<exists>inner. sc = SequenceScanner inner 0 SequenceStartPositions
     \<and> \<not> usesField SequenceStartPositions inner
     \<and> (\<forall>obj n. getSize (SequenceScanner (shape inner) 0 SequenceStartPositions) obj = Inr n
          \<longrightarrow> n = innerCount (seqType h) obj)"
proof -
  have "\<exists>b. isBase b \<and>
    sc = (if seqType h = SQT_SUBSEQ
          then SequenceScanner (SequenceScanner b 0 SubSequenceStartPositions) 0 SequenceStartPositions
          else SequenceScanner b 0 SequenceStartPositions)"
    using c s
    by (auto simp: create_def SQT_NONE_def SQT_SEQ_def SQT_SUBSEQ_def split: if_splits)
  then obtain b where b: "isBase b" and
    sc: "sc = (if seqType h = SQT_SUBSEQ
               then SequenceScanner (SequenceScanner b 0 SubSequenceStartPositions) 0 SequenceStartPositions
               else SequenceScanner b 0 SequenceStartPositions)"
    by blast
  show ?thesis
  proof (cases "seqType h = SQT_SUBSEQ")
    case True
    have "n = innerCount (seqType h) obj"
      if g: "getSize (SequenceScanner (shape (SequenceScanner b 0 SubSequenceStartPositions)) 0
            SequenceStartPositions) obj = Inr n" for obj n
    proof -
      from g have "getSize (SequenceScanner (SequenceScanner (shape b) 0 SubSequenceStartPositions) 0
            SequenceStartPositions) obj = Inr n"
        by (simp del: getSize.simps)
      from getSize_sub[OF _ this] b True show ?thesis
        by simp
    qed
    moreover have "sc = SequenceScanner (SequenceScanner b 0 SubSequenceStartPositions) 0
        SequenceStartPositions"
      using sc True by simp
    moreover have "\<not> usesField SequenceStartPositions (SequenceScanner b 0 SubSequenceStartPositions)"
      using b by simp
    ultimately show ?thesis
      by blast
  next
    case False
    have "n = innerCount (seqType h) obj"
      if g: "getSize (SequenceScanner (shape b) 0 SequenceStartPositions) obj = Inr n" for obj n
    proof -
      have "isBase (shape b)" using b by simp
      from getSize_base[OF this g] False show ?thesis
        by (simp add: innerCount_def)
    qed
    moreover have "sc = SequenceScanner b 0 SequenceStartPositions"
      using sc False by simp
    moreover have "\<not> usesField SequenceStartPositions b"
      using b by simp
    ultimately show ?thesis
      by blast
  qed
qed

section \<open>The steps of the interleaved model\<close>

lemma step_Load_cases:
  assumes "step cfg (Load r) p = Next p'"
  obtains
    (erase) cid where "loadThread (prov p) = Some AtLoopHead" "\<not> exit_flag (prov p)"
      "cid < length (callingContexts (prov p))"
      "cid = PositionRandom (skipShuffle cfg) r (length (callingContexts (prov p)))"
      "iterNext (callingContexts (prov p) ! cid) = None"
      "p' = p\<lparr>prov := (prov p)\<lparr>callingContexts :=
              take cid (callingContexts (prov p)) @ drop (Suc cid) (callingContexts (prov p))\<rparr>\<rparr>"
  | (pull) cid d rest w where "loadThread (prov p) = Some AtLoopHead" "\<not> exit_flag (prov p)"
      "cid < length (callingContexts (prov p))"
      "cid = PositionRandom (skipShuffle cfg) r (length (callingContexts (prov p)))"
      "iterNext (callingContexts (prov p) ! cid) = Some (d, rest)"
      "additionalBatchSize (calcBatchSize cfg) d = Inr w"
      "p' = p\<lparr>prov := (prov p)\<lparr>callingContexts := (callingContexts (prov p))[cid := rest],
              loadThread := Some (Waiting d w)\<rparr>\<rparr>"
  | (ended) "loadThread (prov p) = Some AtLoopHead"
      "exit_flag (prov p) \<or> callingContexts (prov p) = []"
      "p' = p\<lparr>prov := (prov p)\<lparr>loadThread := Some Ended\<rparr>\<rparr>"
  | (pass) d w where "loadThread (prov p) = Some (Waiting d w)" "pushReady cfg (prov p) w"
      "p' = p\<lparr>prov := (prov p)\<lparr>loadThread := Some (Inserting d w)\<rparr>\<rparr>"
  | (insert) d w where "loadThread (prov p) = Some (Inserting d w)"
      "p' = p\<lparr>prov := (prov p)\<lparr>poolActualSize := poolActualSize (prov p) + w,
              dataPool := dataPool (prov p) @ [Some d], loadThread := Some AtLoopHead\<rparr>\<rparr>"
proof -
  from assms obtain s where ls: "loadThreadStep cfg r (prov p) = Next s" and p': "p' = p\<lparr>prov := s\<rparr>"
    by (auto simp: step_def split: step.splits)
  from ls obtain l where l: "loadThread (prov p) = Some l"
    by (cases "loadThread (prov p)") (auto simp: loadThreadStep_def)
  show thesis
  proof (cases l)
    case AtLoopHead
    show ?thesis
    proof (cases "\<not> exit_flag (prov p) \<and> callingContexts (prov p) \<noteq> []")
      case False
      with ls l AtLoopHead p' show ?thesis
        by (intro ended) (auto simp: loadThreadStep_def)
    next
      case True
      define cid where "cid = PositionRandom (skipShuffle cfg) r (length (callingContexts (prov p)))"
      from ls l AtLoopHead True have c: "cid < length (callingContexts (prov p))"
        by (auto simp: loadThreadStep_def Let_def cid_def split: if_splits)
      show ?thesis
      proof (cases "iterNext (callingContexts (prov p) ! cid)")
        case None
        with ls l AtLoopHead True c p' show ?thesis
          by (intro erase[of cid]) (auto simp: loadThreadStep_def Let_def cid_def)
      next
        case (Some dr)
        obtain d rest where dr: "dr = (d, rest)" by (cases dr)
        from ls l AtLoopHead True c Some dr obtain w where
          "additionalBatchSize (calcBatchSize cfg) d = Inr w"
          "s = (prov p)\<lparr>callingContexts := (callingContexts (prov p))[cid := rest],
              loadThread := Some (Waiting d w)\<rparr>"
          by (auto simp: loadThreadStep_def Let_def cid_def split: sum.splits)
        with l AtLoopHead True c Some dr p' show ?thesis
          by (intro pull[of cid d rest w]) (auto simp: cid_def)
      qed
    qed
  next
    case (Waiting d w)
    with ls l p' show ?thesis
      by (intro pass[of d w]) (auto simp: loadThreadStep_def split: if_splits)
  next
    case (Inserting d w)
    with ls l p' show ?thesis
      by (intro insert[of d w]) (auto simp: loadThreadStep_def)
  next
    case Ended
    with ls l show ?thesis by (auto simp: loadThreadStep_def)
  qed
qed

lemma step_Call_cases:
  assumes "step cfg (Call sz) p = Next p'"
  shows "caller p = Idle \<and> \<not> sint sz < 0 \<and> p' = p\<lparr>caller := WaitPull sz\<rparr>"
  using assms by (cases "caller p") (auto simp: step_def split: if_splits)

lemma step_Pull_cases:
  assumes "step cfg (Pull r) p = Next p'"
  obtains
    (wake) sz pool where "caller p = WaitPull sz"
      "loadThread (prov p) \<noteq> None \<longrightarrow> pullReady (prov p) sz" "poolOf (prov p) = Some pool"
      "p' = p\<lparr>caller := Drawing sz [] 0\<rparr>"
  | (move) sz data bsize pool h pool' w where "caller p = Drawing sz data bsize"
      "poolOf (prov p) = Some pool" "bsize < sz" "pool \<noteq> []"
      "moveSample (skipShuffle cfg) r pool = Inr (h, pool')"
      "drawnWeight (calcBatchSize cfg) h = Inr w"
      "p' = p\<lparr>prov := setPool pool' (prov p), caller := Drawing sz (data @ [h]) (bsize + w)\<rparr>"
  | (leave) sz data bsize pool where "caller p = Drawing sz data bsize"
      "poolOf (prov p) = Some pool" "\<not> (bsize < sz \<and> pool \<noteq> [])"
      "p' = p\<lparr>caller := Finishing sz data bsize\<rparr>"
  | (finish) sz data bsize res batch s' where "caller p = Finishing sz data bsize"
      "finishBatch cfg sz data bsize (prov p) = Inr (res, batch, s')"
      "p' = p\<lparr>prov := s', caller := Idle,
              returned := returned p @ [(res, if res = 0 then [] else data)]\<rparr>"
proof -
  from assms have cs: "callerStep cfg r p = Next p'"
    by (simp add: step_def)
  show thesis
  proof (cases "caller p")
    case Idle
    with cs show ?thesis by (simp add: callerStep_def)
  next
    case (WaitPull sz)
    with cs show ?thesis
      by (cases "poolOf (prov p)") (auto simp: callerStep_def intro: wake split: if_splits)
  next
    case (Drawing sz data bsize)
    from cs Drawing obtain pool where pool: "poolOf (prov p) = Some pool"
      by (cases "poolOf (prov p)") (auto simp: callerStep_def)
    show ?thesis
    proof (cases "bsize < sz \<and> pool \<noteq> []")
      case False
      with cs Drawing pool show ?thesis
        by (intro leave[of sz data bsize pool]) (auto simp: callerStep_def)
    next
      case True
      with cs Drawing pool obtain h pool' w where
        "moveSample (skipShuffle cfg) r pool = Inr (h, pool')"
        "drawnWeight (calcBatchSize cfg) h = Inr w"
        "p' = p\<lparr>prov := setPool pool' (prov p), caller := Drawing sz (data @ [h]) (bsize + w)\<rparr>"
        by (auto simp: callerStep_def split: sum.splits)
      with Drawing pool True show ?thesis
        by (intro move[of sz data bsize pool h pool' w]) auto
    qed
  next
    case (Finishing sz data bsize)
    with cs show ?thesis
      by (cases "finishBatch cfg sz data bsize (prov p)")
         (auto simp: callerStep_def intro: finish)
  qed
qed

section \<open>The invariants of the interleaved model\<close>

lemma additionalBatchSize_weightVal:
  "additionalBatchSize calc d = Inr w \<Longrightarrow> weightVal calc (Some d) = w"
  by (auto simp: additionalBatchSize_def weightVal_def drawnWeight_def split: option.splits)

lemma drawnWeight_weightVal: "drawnWeight calc h = Inr w \<Longrightarrow> weightVal calc h = w"
  by (simp add: weightVal_def)

lemma iterNext_produced:
  "iterNext ctx = Some (d, rest) \<Longrightarrow> ctx = Some d # rest \<and> produced ctx = Some d # produced rest"
  "iterNext ctx = None \<Longrightarrow> produced ctx = []"
  by (auto simp: iterNext_def produced_def split: list.splits option.splits)

lemma concat_produced_erase:
  assumes "cid < length ctxs" "produced (ctxs ! cid) = []"
  shows "concat (map produced (take cid ctxs @ drop (Suc cid) ctxs)) = concat (map produced ctxs)"
proof -
  have "ctxs = take cid ctxs @ (ctxs ! cid) # drop (Suc cid) ctxs"
    using assms(1) by (rule id_take_nth_drop)
  then have "concat (map produced ctxs)
      = concat (map produced (take cid ctxs)) @ produced (ctxs ! cid)
        @ concat (map produced (drop (Suc cid) ctxs))"
    by (metis concat.simps(2) concat_append list.simps(9) map_append)
  with assms(2) show ?thesis by simp
qed

lemma poolWeight_concat_update:
  assumes "cid < length ctxs" "produced (ctxs ! cid) = h # produced rest"
  shows "poolWeight calc (concat (map produced ctxs))
    = unat (weightVal calc h) + poolWeight calc (concat (map produced (ctxs[cid := rest])))"
proof -
  have e: "ctxs = take cid ctxs @ (ctxs ! cid) # drop (Suc cid) ctxs"
    using assms(1) by (rule id_take_nth_drop)
  have u: "ctxs[cid := rest] = take cid ctxs @ rest # drop (Suc cid) ctxs"
    using assms(1) by (rule upd_conv_take_nth_drop)
  have "poolWeight calc (concat (map produced ctxs))
      = poolWeight calc (concat (map produced (take cid ctxs)))
        + poolWeight calc (produced (ctxs ! cid))
        + poolWeight calc (concat (map produced (drop (Suc cid) ctxs)))"
    by (subst e) simp
  moreover have "poolWeight calc (concat (map produced (ctxs[cid := rest])))
      = poolWeight calc (concat (map produced (take cid ctxs)))
        + poolWeight calc (produced rest)
        + poolWeight calc (concat (map produced (drop (Suc cid) ctxs)))"
    by (subst u) simp
  ultimately show ?thesis using assms(2) by simp
qed

lemma unat_add_fit:
  fixes a w :: size_t
  assumes "unat a + unat w < 2 ^ 64"
  shows "unat (a + w) = unat a + unat w"
  using assms by (simp add: unat_add_lem[THEN iffD1])

lemma unat_sub_fit:
  fixes a b :: size_t
  assumes "unat b \<le> unat a"
  shows "unat (a - b) = unat a - unat b"
  using assms by (simp add: unat_sub word_le_nat_alt)

lemma inv_Load:
  assumes st: "step cfg (Load r) p = Next p'" and fit: "passWeight cfg < 2 ^ 64"
    and w: "weightInv cfg p" and c: "capInv cfg p"
  shows "weightInv cfg p' \<and> capInv cfg p'"
  using st
proof (cases rule: step_Load_cases)
  case (erase cid)
  from iterNext_produced(2)[OF erase(5)] have "produced (callingContexts (prov p) ! cid) = []" .
  from concat_produced_erase[OF erase(3) this] w c erase show ?thesis
    by (auto simp: weightInv_def capInv_def held_def)
next
  case (pull cid d rest w')
  from iterNext_produced(1)[OF pull(5)]
  have "produced (callingContexts (prov p) ! cid) = Some d # produced rest" by blast
  from poolWeight_concat_update[OF pull(3) this, of "calcBatchSize cfg"]
    additionalBatchSize_weightVal[OF pull(6)] w c pull
  show ?thesis
    by (auto simp: weightInv_def capInv_def held_def)
next
  case ended
  with w c show ?thesis
    by (auto simp: weightInv_def capInv_def held_def)
next
  case (pass d w')
  from w pass(1) have wv: "w' = weightVal (calcBatchSize cfg) (Some d)"
    and b: "unat (poolActualSize (prov p)) + unat w' \<le> passWeight cfg"
    by (auto simp: weightInv_def held_def)
  from b fit have "unat (poolActualSize (prov p) + w') = unat (poolActualSize (prov p)) + unat w'"
    by (intro unat_add_fit) simp
  with pass(2) have "\<not> canOverBatchSize cfg \<Longrightarrow>
      unat (poolActualSize (prov p)) + unat w' < unat (poolSize cfg)"
    by (auto simp: pushReady_def word_less_nat_alt)
  with pass w c show ?thesis
    by (auto simp: weightInv_def capInv_def held_def pushReady_def)
next
  case (insert d w')
  from w insert(1) have wv: "w' = weightVal (calcBatchSize cfg) (Some d)"
    and b: "unat (poolActualSize (prov p)) + unat w' \<le> passWeight cfg"
    by (auto simp: weightInv_def held_def)
  from b fit have u: "unat (poolActualSize (prov p) + w') = unat (poolActualSize (prov p)) + unat w'"
    by (intro unat_add_fit) simp
  have wi: "weightInv cfg p'"
    using w insert u wv by (auto simp: weightInv_def held_def)
  have ci: "capInv cfg p'"
  proof (cases "canOverBatchSize cfg")
    case False
    with c insert(1) have "unat (poolActualSize (prov p)) + unat w' < unat (poolSize cfg)"
      by (auto simp: capInv_def)
    with u False insert show ?thesis
      by (auto simp: capInv_def word_le_nat_alt)
  next
    case True
    with c insert(1) have "poolActualSize (prov p) < poolSize cfg"
      by (auto simp: capInv_def)
    then have "unat (poolActualSize (prov p)) < unat (poolSize cfg)"
      by (simp add: word_less_nat_alt)
    with u wv have "unat (poolActualSize (prov p) + w')
        < unat (poolSize cfg) + unat (weightVal (calcBatchSize cfg) (Some d))"
      by simp
    with True insert show ?thesis
      by (auto simp: capInv_def)
  qed
  from wi ci show ?thesis ..
qed

lemma finishBatch_state:
  assumes "finishBatch cfg sz data bsize s = Inr (res, batch, s')"
  shows "loadThread s' = loadThread s" "dataPool s' = dataPool s"
    "callingContexts s' = callingContexts s" "exit_flag s' = exit_flag s"
    "poolActualSize s' = (if loadThread s \<noteq> None then poolActualSize s - bsize else poolActualSize s)"
    "res = bsize"
    "cache s' = (if bsize = 0 then cache s else fst (cache_drop (cache s) data))"
  using assms by (auto simp: finishBatch_def Let_def split: if_splits sum.splits)

lemma setPool_state:
  "loadThread (setPool pool s) = loadThread s"
  "callingContexts (setPool pool s) = callingContexts s"
  "exit_flag (setPool pool s) = exit_flag s"
  "poolActualSize (setPool pool s) = poolActualSize s"
  "dataPool (setPool pool s) = (if loadThread s \<noteq> None then pool else dataPool s)"
  "cache (setPool pool s) = (if loadThread s \<noteq> None then cache s else cache_store (cache s) pool)"
  by (auto simp: setPool_def)

lemma inv_Call:
  assumes st: "step cfg (Call sz) p = Next p'"
    and w: "weightInv cfg p" and c: "capInv cfg p"
  shows "weightInv cfg p' \<and> capInv cfg p'"
  using step_Call_cases[OF st] w c
  by (auto simp: weightInv_def capInv_def drawn_def drawnSize_def)

lemma inv_Pull:
  assumes st: "step cfg (Pull r) p = Next p'" and fit: "passWeight cfg < 2 ^ 64"
    and w: "weightInv cfg p" and c: "capInv cfg p"
  shows "weightInv cfg p' \<and> capInv cfg p'"
  using st
proof (cases rule: step_Pull_cases)
  case (wake sz pool)
  with w c show ?thesis
    by (auto simp: weightInv_def capInv_def drawn_def drawnSize_def)
next
  case (leave sz data bsize pool)
  with w c show ?thesis
    by (auto simp: weightInv_def capInv_def drawn_def drawnSize_def)
next
  case (move sz data bsize pool h pool' w')
  show ?thesis
  proof (cases "loadThread (prov p)")
    case None
    with w c move show ?thesis
      by (auto simp: weightInv_def capInv_def setPool_state)
  next
    case (Some l)
    with move(2) have pool: "pool = dataPool (prov p)"
      by (simp add: poolOf_def)
    from moveSample_mset[OF move(5)] have m: "mset pool = mset (h # pool')"
      by simp
    from poolWeight_mset[OF m, of "calcBatchSize cfg"] drawnWeight_weightVal[OF move(6)]
    have pw: "poolWeight (calcBatchSize cfg) pool = unat w' + poolWeight (calcBatchSize cfg) pool'"
      and wv: "weightVal (calcBatchSize cfg) h = w'"
      by simp_all
    from w Some move(1) pool have
      b: "poolWeight (calcBatchSize cfg) data + poolWeight (calcBatchSize cfg) pool \<le> passWeight cfg"
      and bs: "unat bsize = poolWeight (calcBatchSize cfg) data"
      by (auto simp: weightInv_def drawn_def drawnSize_def)
    from b bs pw fit have "unat (bsize + w') = unat bsize + unat w'"
      by (intro unat_add_fit) simp
    with w Some move pool pw wv have wi: "weightInv cfg p'"
      by (auto simp: weightInv_def drawn_def drawnSize_def setPool_state)
    from m have "set pool = set (h # pool')"
      by (metis set_mset_mset)
    then have se: "set (pool' @ data @ [h]) = set (pool @ data)"
      by auto
    have ci: "capInv cfg p'"
    proof (cases "canOverBatchSize cfg")
      case False
      with c Some move show ?thesis
        by (auto simp: capInv_def setPool_state)
    next
      case True
      with c move(1) pool have
        d: "poolActualSize (prov p) \<le> poolSize cfg
          \<or> (\<exists>h \<in> set (pool @ data).
               unat (poolActualSize (prov p))
                 < unat (poolSize cfg) + unat (weightVal (calcBatchSize cfg) h))"
        and i: "\<forall>d w. loadThread (prov p) = Some (Inserting d w) \<longrightarrow>
               poolActualSize (prov p) < poolSize cfg"
        by (auto simp: capInv_def drawn_def)
      from d se have "poolActualSize (prov p) \<le> poolSize cfg
          \<or> (\<exists>h \<in> set (pool' @ data @ [h]).
               unat (poolActualSize (prov p))
                 < unat (poolSize cfg) + unat (weightVal (calcBatchSize cfg) h))"
        by simp
      with i True Some move show ?thesis
        by (simp add: capInv_def drawn_def setPool_state)
    qed
    from wi ci show ?thesis ..
  qed
next
  case (finish sz data bsize res batch s')
  note fs = finishBatch_state[OF finish(2)]
  show ?thesis
  proof (cases "loadThread (prov p)")
    case None
    with w c finish fs show ?thesis
      by (auto simp: weightInv_def capInv_def drawn_def drawnSize_def)
  next
    case (Some l)
    from w Some finish(1) have
      a: "unat (poolActualSize (prov p)) = poolWeight (calcBatchSize cfg) (dataPool (prov p))
            + poolWeight (calcBatchSize cfg) data"
      and bs: "unat bsize = poolWeight (calcBatchSize cfg) data"
      by (auto simp: weightInv_def drawn_def drawnSize_def)
    from a bs have u: "unat (poolActualSize (prov p) - bsize)
        = poolWeight (calcBatchSize cfg) (dataPool (prov p))"
      by (subst unat_sub_fit) simp_all
    with w Some finish fs have wi: "weightInv cfg p'"
      by (auto simp: weightInv_def drawn_def drawnSize_def)
    have le: "unat (poolActualSize (prov p) - bsize) \<le> unat (poolActualSize (prov p))"
      using u a by simp
    have ci: "capInv cfg p'"
    proof (cases "canOverBatchSize cfg")
      case False
      with c Some finish fs le show ?thesis
        by (auto simp: capInv_def drawn_def word_le_nat_alt)
    next
      case True
      from c True have ins: "\<forall>d w. loadThread (prov p) = Some (Inserting d w) \<longrightarrow>
          poolActualSize (prov p) < poolSize cfg"
        by (simp add: capInv_def)
      with le have ins': "\<forall>d w. loadThread (prov p) = Some (Inserting d w) \<longrightarrow>
          poolActualSize (prov p) - bsize < poolSize cfg"
        by (auto simp: word_less_nat_alt)
      from c True finish(1) consider
        (le) "poolActualSize (prov p) \<le> poolSize cfg"
        | (pool) h where "h \<in> set (dataPool (prov p))"
          "unat (poolActualSize (prov p)) < unat (poolSize cfg) + unat (weightVal (calcBatchSize cfg) h)"
        | (data) h where "h \<in> set data"
          "unat (poolActualSize (prov p)) < unat (poolSize cfg) + unat (weightVal (calcBatchSize cfg) h)"
        by (auto simp: capInv_def drawn_def)
      then have "poolActualSize (prov p) - bsize \<le> poolSize cfg
         \<or> (\<exists>h \<in> set (dataPool (prov p)).
               unat (poolActualSize (prov p) - bsize)
                 < unat (poolSize cfg) + unat (weightVal (calcBatchSize cfg) h))"
      proof cases
        case le
        with \<open>unat (poolActualSize (prov p) - bsize) \<le> unat (poolActualSize (prov p))\<close>
        show ?thesis by (auto simp: word_le_nat_alt)
      next
        case (pool h)
        with \<open>unat (poolActualSize (prov p) - bsize) \<le> unat (poolActualSize (prov p))\<close>
        show ?thesis by (intro disjI2 bexI[of _ h]) auto
      next
        case (data h)
        then obtain xs ys where "data = xs @ h # ys"
          by (meson split_list)
        then have "unat (weightVal (calcBatchSize cfg) h) \<le> poolWeight (calcBatchSize cfg) data"
          by simp
        with data(2) u a have "unat (poolActualSize (prov p) - bsize) < unat (poolSize cfg)"
          by simp
        then show ?thesis by (auto simp: word_le_nat_alt)
      qed
      with True ins' Some finish fs show ?thesis
        by (auto simp: capInv_def drawn_def)
    qed
    from wi ci show ?thesis ..
  qed
qed

lemma inv_step:
  assumes "step cfg a p = Next p'" "passWeight cfg < 2 ^ 64" "weightInv cfg p" "capInv cfg p"
  shows "weightInv cfg p' \<and> capInv cfg p'"
  using assms inv_Load inv_Call inv_Pull by (cases a) blast+

lemma inv_run:
  assumes "run cfg acts p = Next p'" "passWeight cfg < 2 ^ 64" "weightInv cfg p" "capInv cfg p"
  shows "weightInv cfg p' \<and> capInv cfg p'"
  using assms
proof (induction acts arbitrary: p)
  case Nil
  then show ?case by simp
next
  case (Cons a acts)
  from Cons.prems(1) obtain p1 where s: "step cfg a p = Next p1" and r: "run cfg acts p1 = Next p'"
    by (auto split: step.splits)
  from inv_step[OF s Cons.prems(2,3,4)] Cons.IH[OF r Cons.prems(2)] show ?case by blast
qed

lemma reset_state:
  assumes "reset cfg s0 = Inr s"
  shows "poolActualSize s = 0" "dataPool s = []" "exit_flag s = False"
    "loadThread s = None \<or> (loadThread s = Some AtLoopHead \<and> callingContexts s = generators cfg)"
  using assms
  by (auto simp: reset_def resetImpl_def Let_def split: if_splits sum.splits)

lemma inv_start:
  assumes "reset cfg s0 = Inr s"
  shows "weightInv cfg (startProtocol s) \<and> capInv cfg (startProtocol s)"
  using reset_state[OF assms]
  by (auto simp: weightInv_def capInv_def startProtocol_def drawn_def drawnSize_def held_def
      passWeight_def)

section \<open>The unshuffled order\<close>

lemma PositionRandom_skip [simp]: "PositionRandom True r len = 0"
  by (simp add: PositionRandom_def)

lemma drawLoop_fifo_step:
  assumes "bsize < sz" "h \<noteq> None" "drawnWeight calc h = Inr w"
  shows "drawLoop True calc rnd sz k (h # rest) data bsize
    = drawLoop True calc rnd sz k rest (data @ [h]) (bsize + w)"
  using assms by (subst drawLoop.simps) (auto simp: moveSample_def)

lemma drawLoop_fifo_stop:
  assumes "\<not> (bsize < sz \<and> rest \<noteq> [])"
  shows "drawLoop True calc rnd sz k rest data bsize = Inr (rest, data, bsize, k)"
  using assms by (subst drawLoop.simps) auto

lemma pendingTail_Load:
  assumes st: "step cfg (Load r) p = Next p'" and sk: "skipShuffle cfg"
    and f: "fifoInv cfg p"
  shows "pendingTail p' = pendingTail p \<and> caller p' = caller p \<and> returned p' = returned p
    \<and> loadThread (prov p') \<noteq> None
    \<and> (held (loadThread (prov p')) \<noteq> [] \<longrightarrow> callingContexts (prov p') \<noteq> [])
    \<and> (callingContexts (prov p) = [] \<longrightarrow> callingContexts (prov p') = [])
    \<and> poolWeight (calcBatchSize cfg) (dataPool (prov p))
        \<le> poolWeight (calcBatchSize cfg) (dataPool (prov p'))"
  using st
proof (cases rule: step_Load_cases)
  case (erase cid)
  with sk have c0: "cid = 0" by simp
  with erase(3) obtain c cs where cs: "callingContexts (prov p) = c # cs"
    by (cases "callingContexts (prov p)") auto
  with erase(5) c0 iterNext_produced(2)[of c] have "produced c = []" by simp
  with erase c0 cs f show ?thesis
    by (auto simp: pendingTail_def held_def fifoInv_def)
next
  case (pull cid d rest w)
  with sk have c0: "cid = 0" by simp
  with pull(3) obtain c cs where cs: "callingContexts (prov p) = c # cs"
    by (cases "callingContexts (prov p)") auto
  with pull(5) c0 iterNext_produced(1)[of c d rest] have "produced c = Some d # produced rest"
    by auto
  with pull c0 cs show ?thesis
    by (auto simp: pendingTail_def held_def)
next
  case ended
  with f show ?thesis
    by (auto simp: pendingTail_def held_def fifoInv_def)
next
  case (pass d w)
  with f show ?thesis
    by (auto simp: pendingTail_def held_def fifoInv_def)
next
  case (insert d w)
  then show ?thesis
    by (auto simp: pendingTail_def held_def)
qed

lemma fifo_Load:
  assumes st: "step cfg (Load r) p = Next p'" and sk: "skipShuffle cfg"
    and f: "fifoInv cfg p"
  shows "fifoInv cfg p'"
proof -
  note t = pendingTail_Load[OF st sk f]
  show ?thesis
  proof (cases "caller p")
    case (Drawing sz data bsize)
    with f have
      d1: "drawLoop True (calcBatchSize cfg) rndZero sz 0 (data @ pendingTail p) [] 0
             = drawLoop True (calcBatchSize cfg) rndZero sz 0 (pendingTail p) data bsize"
      and su: "callingContexts (prov p) = []
          \<or> unat sz \<le> poolWeight (calcBatchSize cfg) (data @ dataPool (prov p))"
      by (auto simp: fifoInv_def)
    from su t have "callingContexts (prov p') = []
          \<or> unat sz \<le> poolWeight (calcBatchSize cfg) (data @ dataPool (prov p'))"
      by auto
    with d1 t Drawing show ?thesis
      by (simp add: fifoInv_def)
  next
    case (Finishing sz data bsize)
    with f t show ?thesis by (simp add: fifoInv_def)
  qed (use t in \<open>simp_all add: fifoInv_def\<close>)
qed

lemma fifo_Pull:
  assumes st: "step cfg (Pull r) p = Next p'" and sk: "skipShuffle cfg"
    and f: "fifoInv cfg p" and w: "weightInv cfg p"
  shows "fifoInv cfg p'
    \<and> returned p' @ expectedFrom (calcBatchSize cfg) (caller p') szs (drawn (caller p') @ pendingTail p')
      = returned p @ expectedFrom (calcBatchSize cfg) (caller p) szs (drawn (caller p) @ pendingTail p)"
proof -
  from f have thr: "loadThread (prov p) \<noteq> None"
    and hi: "held (loadThread (prov p)) \<noteq> [] \<longrightarrow> callingContexts (prov p) \<noteq> []"
    by (auto simp: fifoInv_def)
  from st show ?thesis
  proof (cases rule: step_Pull_cases)
    case (wake sz pool)
    from w thr wake(1) have "unat (poolActualSize (prov p))
        = poolWeight (calcBatchSize cfg) (dataPool (prov p))"
      by (auto simp: weightInv_def drawn_def)
    with wake(2) thr have "callingContexts (prov p) = []
        \<or> unat sz \<le> poolWeight (calcBatchSize cfg) (dataPool (prov p))"
      by (auto simp: pullReady_def word_le_nat_alt)
    with wake f show ?thesis
      by (auto simp: fifoInv_def pendingTail_def expectedFrom_def drawn_def)
  next
    case (move sz data bsize pool h pool' w')
    from move(2) thr have pool: "pool = dataPool (prov p)"
      by (simp add: poolOf_def)
    from move(5) sk have ph: "pool = h # pool'"
      by (auto dest: moveSample_fifo)
    from moveSample_mset[OF move(5)] have hn: "h \<noteq> None"
      by simp
    have t: "pendingTail p = h # pendingTail p'"
      using move(7) pool ph thr by (simp add: pendingTail_def setPool_state)
    from f move(1) have
      d1: "drawLoop True (calcBatchSize cfg) rndZero sz 0 (data @ pendingTail p) [] 0
             = drawLoop True (calcBatchSize cfg) rndZero sz 0 (pendingTail p) data bsize"
      and su: "callingContexts (prov p) = []
          \<or> unat sz \<le> poolWeight (calcBatchSize cfg) (data @ dataPool (prov p))"
      by (auto simp: fifoInv_def)
    have "drawLoop True (calcBatchSize cfg) rndZero sz 0 ((data @ [h]) @ pendingTail p') [] 0
        = drawLoop True (calcBatchSize cfg) rndZero sz 0 (pendingTail p') (data @ [h]) (bsize + w')"
      using d1 t drawLoop_fifo_step[OF move(3) hn move(6)] by simp
    moreover have "callingContexts (prov p') = []
        \<or> unat sz \<le> poolWeight (calcBatchSize cfg) ((data @ [h]) @ dataPool (prov p'))"
      using su move(7) pool ph thr by (auto simp: setPool_state)
    moreover have "loadThread (prov p') = loadThread (prov p)"
      "callingContexts (prov p') = callingContexts (prov p)"
      using move(7) by (simp_all add: setPool_state)
    ultimately have "fifoInv cfg p'"
      using thr hi move(7) by (auto simp: fifoInv_def)
    with move(1,7) t show ?thesis
      by (simp add: expectedFrom_def drawn_def)
  next
    case (leave sz data bsize pool)
    from leave(2) thr have pool: "pool = dataPool (prov p)"
      by (simp add: poolOf_def)
    from f leave(1) have
      d1: "drawLoop True (calcBatchSize cfg) rndZero sz 0 (data @ pendingTail p) [] 0
             = drawLoop True (calcBatchSize cfg) rndZero sz 0 (pendingTail p) data bsize"
      and su: "callingContexts (prov p) = []
          \<or> unat sz \<le> poolWeight (calcBatchSize cfg) (data @ dataPool (prov p))"
      by (auto simp: fifoInv_def)
    from w thr leave(1) have bs: "unat bsize = poolWeight (calcBatchSize cfg) data"
      by (auto simp: weightInv_def drawn_def drawnSize_def)
    have "\<not> (bsize < sz \<and> pendingTail p \<noteq> [])"
    proof
      assume a: "bsize < sz \<and> pendingTail p \<noteq> []"
      with leave(3) pool have pe: "dataPool (prov p) = []"
        by simp
      from a bs have "poolWeight (calcBatchSize cfg) data < unat sz"
        by (simp add: word_less_nat_alt)
      with su pe have "callingContexts (prov p) = []"
        by auto
      with hi pe have "pendingTail p = []"
        by (auto simp: pendingTail_def)
      with a show False by simp
    qed
    from drawLoop_fifo_stop[OF this] d1
    have "drawLoop True (calcBatchSize cfg) rndZero sz 0 (data @ pendingTail p) [] 0
        = Inr (pendingTail p, data, bsize, 0)"
      by simp
    with leave thr hi show ?thesis
      by (simp add: fifoInv_def pendingTail_def expectedFrom_def drawn_def)
  next
    case (finish sz data bsize res batch s')
    note fs = finishBatch_state[OF finish(2)]
    from f finish(1) have
      f1: "drawLoop True (calcBatchSize cfg) rndZero sz 0 (data @ pendingTail p) [] 0
             = Inr (pendingTail p, data, bsize, 0)"
      by (auto simp: fifoInv_def)
    have t: "pendingTail p' = pendingTail p"
      using finish(3) fs by (simp add: pendingTail_def)
    have "fifoInv cfg p'"
      using thr hi finish(3) fs by (simp add: fifoInv_def)
    with finish(1,3) fs(6) f1 t show ?thesis
      by (simp add: expectedFrom_def drawn_def drawSamples_def)
  qed
qed

lemma fifo_Call:
  assumes st: "step cfg (Call sz) p = Next p'" and f: "fifoInv cfg p"
  shows "fifoInv cfg p'
    \<and> returned p' @ expectedFrom (calcBatchSize cfg) (caller p') szs (drawn (caller p') @ pendingTail p')
      = returned p @ expectedFrom (calcBatchSize cfg) (caller p) (sz # szs) (drawn (caller p) @ pendingTail p)"
  using step_Call_cases[OF st] f
  by (auto simp: fifoInv_def expectedFrom_def drawn_def pendingTail_def)

lemma fifo_run:
  assumes "run cfg acts p = Next p'" and "skipShuffle cfg" and "passWeight cfg < 2 ^ 64"
    and "fifoInv cfg p" and "weightInv cfg p" and "capInv cfg p"
  shows "returned p' @ expectedFrom (calcBatchSize cfg) (caller p') szs (drawn (caller p') @ pendingTail p')
      = returned p @ expectedFrom (calcBatchSize cfg) (caller p) (calls acts @ szs)
          (drawn (caller p) @ pendingTail p)"
  using assms
proof (induction acts arbitrary: p)
  case Nil
  then show ?case by simp
next
  case (Cons a acts)
  from Cons.prems(1) obtain p1 where s: "step cfg a p = Next p1" and r: "run cfg acts p1 = Next p'"
    by (auto split: step.splits)
  from inv_step[OF s Cons.prems(3,5,6)] have i1: "weightInv cfg p1" "capInv cfg p1"
    by auto
  have f1: "fifoInv cfg p1
    \<and> returned p1 @ expectedFrom (calcBatchSize cfg) (caller p1) (calls acts @ szs)
          (drawn (caller p1) @ pendingTail p1)
      = returned p @ expectedFrom (calcBatchSize cfg) (caller p) (calls (a # acts) @ szs)
          (drawn (caller p) @ pendingTail p)"
  proof (cases a)
    case (Load r)
    with s pendingTail_Load[OF _ Cons.prems(2,4)] fifo_Load[OF _ Cons.prems(2,4)] show ?thesis
      by auto
  next
    case (Call sz)
    with s fifo_Call[OF _ Cons.prems(4)] show ?thesis
      by auto
  next
    case (Pull r)
    with s fifo_Pull[OF _ Cons.prems(2,4,5)] show ?thesis
      by auto
  qed
  from Cons.IH[OF r Cons.prems(2,3) conjunct1[OF f1] i1] f1 show ?case
    by simp
qed

lemma fifo_start:
  assumes "reset cfg s0 = Inr s" "loadThread s \<noteq> None"
  shows "fifoInv cfg (startProtocol s)" "drawn (caller (startProtocol s)) @ pendingTail (startProtocol s) = stream cfg"
    "returned (startProtocol s) = []" "caller (startProtocol s) = Idle"
  using reset_state[OF assms(1)] assms(2)
  by (auto simp: fifoInv_def startProtocol_def held_def drawn_def pendingTail_def stream_def)

lemma returned_prefix:
  assumes "reset cfg s0 = Inr s" "loadThread s \<noteq> None" "skipShuffle cfg" "passWeight cfg < 2 ^ 64"
    and "run cfg acts (startProtocol s) = Next p"
  shows "returned p = take (length (returned p))
           (expectedBatches (calcBatchSize cfg) (calls acts) (stream cfg))"
proof -
  note fs = fifo_start[OF assms(1,2)]
  from inv_start[OF assms(1)] have i: "weightInv cfg (startProtocol s)" "capInv cfg (startProtocol s)"
    by auto
  from fifo_run[OF assms(5,3,4) fs(1) i, of "[]"] fs(2,3,4)
  have "returned p @ expectedFrom (calcBatchSize cfg) (caller p) [] (drawn (caller p) @ pendingTail p)
      = expectedBatches (calcBatchSize cfg) (calls acts) (stream cfg)"
    by (simp add: expectedFrom_def)
  then show ?thesis
    by (metis append_eq_conv_conj)
qed

section \<open>Drawing batches until the pass ends\<close>

lemma cache_load_drop_store:
  "cache_load c = Some pool \<Longrightarrow>
   cache_load (fst (cache_drop (cache_store c pool') data)) = Some pool'"
  by (cases c) auto

lemma getNextBatchInternal_parts:
  assumes "getNextBatchInternal cfg rnd sz s = Inr (res, batch, s')"
  obtains pool pool' data k where
    "poolOf s = Some pool"
    "drawSamples (skipShuffle cfg) (calcBatchSize cfg) rnd sz pool = Inr (pool', data, res, k)"
    "poolOf s' = Some pool'" "loadThread s' = loadThread s"
    "callingContexts s' = callingContexts s"
    "res = 0 \<longrightarrow> cache s' = cache (setPool pool' s)"
    "res \<noteq> 0 \<longrightarrow> cache s' = fst (cache_drop (cache (setPool pool' s)) data)"
proof -
  from assms obtain pool pool' data bsize k where
    p: "poolOf s = Some pool" and
    d: "drawSamples (skipShuffle cfg) (calcBatchSize cfg) rnd sz pool = Inr (pool', data, bsize, k)" and
    f: "finishBatch cfg sz data bsize (setPool pool' s) = Inr (res, batch, s')"
    by (auto simp: getNextBatchInternal_def split: if_splits option.splits sum.splits)
  note fs = finishBatch_state[OF f]
  have "poolOf s' = Some pool'"
  proof (cases "loadThread s")
    case None
    with p have "cache_load (cache s) = Some pool"
      by (simp add: poolOf_def)
    then have "cache_load (fst (cache_drop (cache_store (cache s) pool') data)) = Some pool'"
      "cache_load (cache_store (cache s) pool') = Some pool'"
      by (cases "cache s"; simp)+
    with None fs show ?thesis
      by (auto simp: poolOf_def setPool_state)
  next
    case (Some l)
    with fs show ?thesis
      by (simp add: poolOf_def setPool_state)
  qed
  with p d fs show thesis
    by (intro that[of pool pool' data k]) (auto simp: setPool_state)
qed

lemma getNextBatchInternal_shrinks:
  assumes "getNextBatchInternal cfg rnd sz s = Inr (res, batch, s')" and "res \<noteq> 0"
  shows "length (poolList s') < length (poolList s)"
proof -
  from assms(1) obtain pool pool' data k where
    p: "poolOf s = Some pool" "poolOf s' = Some pool'" and
    d: "drawSamples (skipShuffle cfg) (calcBatchSize cfg) rnd sz pool = Inr (pool', data, res, k)"
    by (rule getNextBatchInternal_parts)
  from drawLoop_result[OF d[unfolded drawSamples_def]]
  have m: "mset pool = mset pool' + mset data" and w: "res = weightSum (calcBatchSize cfg) data"
    by auto
  from w assms(2) have "data \<noteq> []"
    by auto
  with m have "length pool' < length pool"
    by (metis add.commute length_greater_0_conv less_add_same_cancel2 size_mset size_union)
  with p show ?thesis
    by (simp add: poolList_def)
qed

text \<open>
  The caller's loop over a pass: batches are requested until a call returns 0. Call
  \<open>n\<close> sees the values \<open>rnds n\<close> of \<^verbatim>\<open>rand()\<close>. The result lists the values the
  calls returned.
\<close>

function drainPass ::
  "config \<Rightarrow> (nat \<Rightarrow> nat \<Rightarrow> nat) \<Rightarrow> nat \<Rightarrow> size_t \<Rightarrow> provider
     \<Rightarrow> error + (size_t list \<times> provider)" where
  "drainPass cfg rnds n sz s =
     (case getNextBatchInternal cfg (rnds n) sz s of
        Inl e \<Rightarrow> Inl e
      | Inr (res, batch, s') \<Rightarrow>
          if res = 0 then Inr ([], s')
          else
            (case drainPass cfg rnds (Suc n) sz s' of
               Inl e \<Rightarrow> Inl e
             | Inr (rs, s'') \<Rightarrow> Inr (res # rs, s'')))"
  by pat_completeness auto
termination
  by (relation "measure (\<lambda>(cfg, rnds, n, sz, s). length (poolList s))")
     (auto dest: getNextBatchInternal_shrinks)

declare drainPass.simps [simp del]

lemma drain_replay:
  assumes "drainPass cfg rnds n sz s = Inr (rs, s')"
    and "loadThread s = None" and "cache s = CacheOnePassInMemory P Q"
    and "0 < sint sz"
    and "\<forall>h\<in>set P. weightVal (calcBatchSize cfg) h \<noteq> 0"
    and "poolWeight (calcBatchSize cfg) P < 2 ^ 64"
  shows "loadThread s' = None \<and> callingContexts s' = callingContexts s
    \<and> (\<exists>Q'. cache s' = CacheOnePassInMemory [] (Q @ Q') \<and> mset Q' = mset P)
    \<and> sum_list (map unat rs) = poolWeight (calcBatchSize cfg) P"
  using assms
proof (induction cfg rnds n sz s arbitrary: rs s' P Q rule: drainPass.induct)
  case (1 cfg rnds n sz s)
  from "1.prems"(1) obtain res batch s1 where
    g: "getNextBatchInternal cfg (rnds n) sz s = Inr (res, batch, s1)"
    by (subst (asm) drainPass.simps) (auto split: sum.splits)
  from "1.prems"(2,3) have po: "poolOf s = Some P"
    by (simp add: poolOf_def)
  from g po obtain P' data k where
    d: "drawSamples (skipShuffle cfg) (calcBatchSize cfg) (rnds n) sz P = Inr (P', data, res, k)" and
    s1: "poolOf s1 = Some P'" "loadThread s1 = loadThread s" "callingContexts s1 = callingContexts s"
      "res = 0 \<longrightarrow> cache s1 = cache (setPool P' s)"
      "res \<noteq> 0 \<longrightarrow> cache s1 = fst (cache_drop (cache (setPool P' s)) data)"
    by (auto elim!: getNextBatchInternal_parts)
  from drawLoop_result[OF d[unfolded drawSamples_def]]
  have m: "mset P = mset P' + mset data" and w: "res = weightSum (calcBatchSize cfg) data"
    and stop: "\<not> (res < sz \<and> P' \<noteq> [])"
    by auto
  from "1.prems"(4) have pos: "0 < sz"
    by (auto simp: word_greater_zero_iff)
  have pw: "poolWeight (calcBatchSize cfg) P
      = poolWeight (calcBatchSize cfg) P' + poolWeight (calcBatchSize cfg) data"
    using poolWeight_mset[of P "P' @ data" "calcBatchSize cfg"] m by simp
  show ?case
  proof (cases "res = 0")
    case True
    with "1.prems"(1) g have e: "rs = []" "s' = s1"
      by (subst (asm) drawLoop.simps drainPass.simps, simp)+
    have "P = []"
    proof (rule ccontr)
      assume "P \<noteq> []"
      from drawSamples_nonzero[OF d pos this "1.prems"(5,6)] True show False
        by simp
    qed
    with m have "P' = []" "data = []"
      by auto
    with s1 True e "1.prems"(2,3) \<open>P = []\<close> show ?thesis
      by (auto simp: setPool_state)
  next
    case False
    with "1.prems"(1) g obtain rs1 where
      r: "drainPass cfg rnds (Suc n) sz s1 = Inr (rs1, s')" and rs: "rs = res # rs1"
      by (subst (asm) drainPass.simps) (auto split: sum.splits)
    from s1 False "1.prems"(2,3) have c1: "cache s1 = CacheOnePassInMemory P' (Q @ data)"
      and l1: "loadThread s1 = None"
      by (auto simp: setPool_state)
    have sub: "set P' \<subseteq> set P"
      using m by (metis mset_subset_eq_add_left set_mset_mono set_mset_mset)
    with "1.prems"(5) have nz': "\<forall>h\<in>set P'. weightVal (calcBatchSize cfg) h \<noteq> 0"
      by blast
    from pw "1.prems"(6) have fit': "poolWeight (calcBatchSize cfg) P' < 2 ^ 64"
      and fitd: "poolWeight (calcBatchSize cfg) data < 2 ^ 64"
      by simp_all
    from "1.IH"[OF g refl refl False r l1 c1 "1.prems"(4) nz' fit'] obtain Q' where
      i: "loadThread s' = None" "callingContexts s' = callingContexts s1"
        "cache s' = CacheOnePassInMemory [] ((Q @ data) @ Q')" "mset Q' = mset P'"
        "sum_list (map unat rs1) = poolWeight (calcBatchSize cfg) P'"
      by blast
    have "unat res = poolWeight (calcBatchSize cfg) data"
      unfolding w by (rule unat_weightSum[OF fitd])
    with i rs pw have "sum_list (map unat rs) = poolWeight (calcBatchSize cfg) P"
      by simp
    moreover have "cache s' = CacheOnePassInMemory [] (Q @ (data @ Q'))"
      using i(3) by simp
    moreover have "mset (data @ Q') = mset P"
      using i(4) m by simp
    ultimately show ?thesis
      using i(1,2) s1(3) by (intro conjI exI[of _ "data @ Q'"]) simp_all
  qed
qed

lemma loadThreadStep_no_thread: "loadThread s = None \<Longrightarrow> loadThreadStep cfg r s = Blocked"
  by (simp add: loadThreadStep_def)

section \<open>Calls that wait and calls that return\<close>


































text \<open>
  In the state \<^const>\<open>exampleStuck\<close> the caller waits for weight 4 in the pool and the
  loading thread waits for the counter to fall below 3: no step is possible, whatever
  the scheduler chooses.
\<close>

lemma exampleStuck_blocked: "step exampleConfig a exampleStuck = Blocked"
  by (cases a)
     (simp_all add: step_def callerStep_def loadThreadStep_def pushReady_def pullReady_def
        exampleStuck_def exampleConfig_def)

lemma exampleStuck_forever: "run exampleConfig (a # acts) exampleStuck = Blocked"
  by (simp add: exampleStuck_blocked)

section \<open>The claims\<close>

text \<open>
  Claim C2, amended. \<^verbatim>\<open>CacheOnePassInMemory::reset\<close> has three branches: with both
  buffers empty it returns true and changes nothing; with an empty replay buffer and a
  non-empty collected buffer it swaps the two and returns false; and it is fatal exactly
  when the replay buffer is non-empty, whatever the collected buffer holds.
\<close>

theorem C2_reset_branches:
  "cache_reset (CacheOnePassInMemory [] []) = Inr (True, CacheOnePassInMemory [] [])
   \<and> cache_reset (CacheOnePassInMemory [] (d # ds)) = Inr (False, CacheOnePassInMemory (d # ds) [])
   \<and> cache_reset (CacheOnePassInMemory (x # xs) dp) = Inl UnexpectedBranch"
  by simp

text \<open>
  Claim C2 as stated makes the fatal branch depend on the collected buffer being
  non-empty too. With one sample in the replay buffer and an empty collected buffer the
  reset is fatal all the same.
\<close>

theorem C2_counterexample:
  "cache_reset (CacheOnePassInMemory [Some (PyInt 1)] []) = Inl UnexpectedBranch
   \<and> \<not> ([Some (PyInt 1)] \<noteq> [] \<and> ([] :: handle list) \<noteq> [])"
  by simp

text \<open>
  Claim C10. The drawing loop never indexes outside the pool and never takes a remainder
  by zero, with or without shuffling and whatever \<^verbatim>\<open>rand()\<close> returns; and every
  handle it hands out is non-null.
\<close>

theorem C10_draw_in_bounds:
  "drawSamples skip calc rnd sz pool \<noteq> Inl OutOfRange
   \<and> (drawSamples skip calc rnd sz pool = Inr (pool', data, bsize, k) \<longrightarrow> None \<notin> set data)"
proof -
  have "drawSamples skip calc rnd sz pool \<noteq> Inl OutOfRange"
    unfolding drawSamples_def by (rule drawLoop_no_OutOfRange)
  moreover have "None \<notin> set data"
    if "drawSamples skip calc rnd sz pool = Inr (pool', data, bsize, k)"
    using drawLoop_result[OF that[unfolded drawSamples_def]] by auto
  ultimately show ?thesis by blast
qed

theorem C10_witness:
  "drawSamples False None rndCount 2 [Some (PyInt 10), Some (PyInt 20), Some (PyInt 30)]
     = Inr ([Some (PyInt 30)], [Some (PyInt 20), Some (PyInt 10)], 2, 2)
   \<and> None \<notin> set [Some (PyInt 20), Some (PyInt 10)]"
proof -
  have e: "drawSamples False None rndCount 2 [Some (PyInt 10), Some (PyInt 20), Some (PyInt 30)]
     = Inr ([Some (PyInt 30)], [Some (PyInt 20), Some (PyInt 10)], 2, 2)"
    by code_simp
  from C10_draw_in_bounds[of False None rndCount 2
      "[Some (PyInt 10), Some (PyInt 20), Some (PyInt 30)]"
      "[Some (PyInt 30)]" "[Some (PyInt 20), Some (PyInt 10)]" 2 2] e
  show ?thesis by blast
qed

text \<open>
  Claim C1, amended. The samples handed out are exactly those removed from the pool.
  The loop stops as soon as the accumulated weight has reached the requested weight or
  the pool is empty, so the weight accumulated (in \<^verbatim>\<open>size_t\<close> arithmetic) over all
  drawn samples but the last is below the requested weight; the last sample may take the
  total beyond it. With the default weight 1 the total is at most the requested weight
  and equals the number of samples drawn.
\<close>

theorem C1_drawn_weight:
  "(drawSamples skip calc rnd sz pool = Inr (pool', data, bsize, k) \<longrightarrow>
      mset pool = mset pool' + mset data
      \<and> bsize = weightSum calc data
      \<and> (sz \<le> bsize \<or> pool' = [])
      \<and> (data \<noteq> [] \<longrightarrow> weightSum calc (butlast data) < sz))
   \<and> (drawSamples skip None rnd sz pool = Inr (pool2, data2, bsize2, k2) \<longrightarrow>
      bsize2 \<le> sz \<and> unat bsize2 = length data2 \<and> bsize2 = weightSum None data2)"
proof -
  have "mset pool = mset pool' + mset data \<and> bsize = weightSum calc data
      \<and> (sz \<le> bsize \<or> pool' = []) \<and> (data \<noteq> [] \<longrightarrow> weightSum calc (butlast data) < sz)"
    if "drawSamples skip calc rnd sz pool = Inr (pool', data, bsize, k)"
    using drawLoop_result[OF that[unfolded drawSamples_def]] by (auto simp: not_less)
  moreover have "bsize2 \<le> sz \<and> unat bsize2 = length data2 \<and> bsize2 = weightSum None data2"
    if "drawSamples skip None rnd sz pool = Inr (pool2, data2, bsize2, k2)"
    using drawLoop_default[OF that[unfolded drawSamples_def]]
      drawLoop_result[OF that[unfolded drawSamples_def]] by auto
  ultimately show ?thesis by blast
qed

theorem C1_witness:
  "drawSamples False selfWeigher rndCount 3 [Some (PyInt 5), Some (PyInt 1), Some (PyInt 2)]
     = Inr ([Some (PyInt 2)], [Some (PyInt 1), Some (PyInt 5)], 6, 2)
   \<and> drawSamples False None rndCount 3 [Some (PyInt 5), Some (PyInt 1), Some (PyInt 2)]
     = Inr ([], [Some (PyInt 1), Some (PyInt 5), Some (PyInt 2)], 3, 3)
   \<and> weightSum selfWeigher (butlast [Some (PyInt 1), Some (PyInt 5)]) < 3
   \<and> (6 :: size_t) = weightSum selfWeigher [Some (PyInt 1), Some (PyInt 5)]
   \<and> unat (3 :: size_t) = length [Some (PyInt 1), Some (PyInt 5), Some (PyInt 2)]"
proof -
  have e1: "drawSamples False selfWeigher rndCount 3 [Some (PyInt 5), Some (PyInt 1), Some (PyInt 2)]
     = Inr ([Some (PyInt 2)], [Some (PyInt 1), Some (PyInt 5)], 6, 2)"
    by code_simp
  have e2: "drawSamples False None rndCount 3 [Some (PyInt 5), Some (PyInt 1), Some (PyInt 2)]
     = Inr ([], [Some (PyInt 1), Some (PyInt 5), Some (PyInt 2)], 3, 3)"
    by code_simp
  have ne: "[Some (PyInt 1), Some (PyInt 5)] \<noteq> []"
    by simp
  from C1_drawn_weight[of False selfWeigher rndCount 3
      "[Some (PyInt 5), Some (PyInt 1), Some (PyInt 2)]"
      "[Some (PyInt 2)]" "[Some (PyInt 1), Some (PyInt 5)]" 6 2
      "[]" "[Some (PyInt 1), Some (PyInt 5), Some (PyInt 2)]" 3 3] e1 e2 ne
  show ?thesis by blast
qed

text \<open>
  Claim C1 as stated bounds the total weight by the requested weight. With a weigher
  that gives the only sample in the pool the weight 5, a request for weight 2 removes
  that sample: total weight 5.
\<close>

theorem C1_counterexample:
  "drawSamples True selfWeigher rndZero 2 [Some (PyInt 5)] = Inr ([], [Some (PyInt 5)], 5, 0)
   \<and> \<not> weightSum selfWeigher [Some (PyInt 5)] \<le> 2"
  by code_simp




text \<open>
  Claim C7. Slot \<open>i\<close> of a batch is a sparse slot, with or without values, and the
  batch is assembled from any list of samples whose element counts sum to less than
  \<open>2\<^sup>3\<^sup>1\<close> (the row offsets are C ints). Then the row offsets are all written, there
  is one more of them than samples, the first is 0, they do not decrease, the last
  equals the number of column indices, and that number is the sum of the element counts
  of the samples. In particular the samples \<open>[5]\<close>, \<open>[]\<close>, \<open>[2, 7]\<close> of a slot without
  values give the row offsets 0, 1, 1, 3 and the columns 5, 2, 7.
\<close>

theorem C7_sparse_row_offsets:
  "(assembleBatch hs data = Inr args \<and> i < length hs
      \<and> (slotType (hs ! i) = ST_NON_SPARSE_VALUE \<or> slotType (hs ! i) = ST_SPARSE_VALUE)
      \<and> seqType (hs ! i) = SQT_NONE
      \<and> sum_list (map (elementCount \<circ> slotField i) data) < 2 ^ 31 \<longrightarrow>
    (\<exists>offs cols vals.
       arg_value (args ! i)
         = Some (CpuSparseMatrix (length data) (dim (hs ! i)) (map Some offs) cols vals)
       \<and> length offs = length data + 1
       \<and> offs ! 0 = 0
       \<and> (\<forall>k<length data. sint (offs ! k) \<le> sint (offs ! Suc k))
       \<and> sint (offs ! length data) = int (length cols)
       \<and> length cols = sum_list (map (elementCount \<circ> slotField i) data)
       \<and> (vals = None \<longleftrightarrow> slotType (hs ! i) = ST_NON_SPARSE_VALUE)))
   \<and> assembleBatch [sparseHeader] sparseSamples
       = Inr [emptyArgument\<lparr>arg_value := Some (CpuSparseMatrix 3 10
                [Some 0, Some 1, Some 1, Some 3] [Some 5, Some 2, Some 7] None)\<rparr>]"
proof (intro conjI impI)
  assume h: "assembleBatch hs data = Inr args \<and> i < length hs
      \<and> (slotType (hs ! i) = ST_NON_SPARSE_VALUE \<or> slotType (hs ! i) = ST_SPARSE_VALUE)
      \<and> seqType (hs ! i) = SQT_NONE
      \<and> sum_list (map (elementCount \<circ> slotField i) data) < 2 ^ 31"
  define objs where "objs = map (slotField i) data"
  define ns where "ns = map elementCount objs"
  define offs where "offs = 0 # offsetsFrom 0 ns"
  have ns: "ns = map (elementCount \<circ> slotField i) data" "length ns = length data"
    by (simp_all add: ns_def objs_def)
  from h assembleBatch_slot[of hs data args i] create_sparse[of "hs ! i"]
  have "scanSlot (sparseScanner (slotType (hs ! i) = ST_SPARSE_VALUE) (dim (hs ! i)) 0 0) objs
      = Inr (args ! i)"
    by (auto simp: objs_def)
  from scanSlot_sparse[OF this] obtain cols vals where
    a: "arg_value (args ! i)
         = Some (CpuSparseMatrix (length data) (dim (hs ! i)) (map Some offs) cols vals)"
    and c: "length cols = sum_list ns" and v: "vals = None \<longleftrightarrow> slotType (hs ! i) \<noteq> ST_SPARSE_VALUE"
    by (auto simp: objs_def ns_def offs_def)
  from h have fit: "sum_list ns < 2 ^ 31"
    by (simp add: ns)
  from h v have v': "vals = None \<longleftrightarrow> slotType (hs ! i) = ST_NON_SPARSE_VALUE"
    by (auto simp: ST_NON_SPARSE_VALUE_def ST_SPARSE_VALUE_def)
  from offsets_props[OF fit offs_def] a c v' ns
  show "\<exists>offs cols vals.
       arg_value (args ! i)
         = Some (CpuSparseMatrix (length data) (dim (hs ! i)) (map Some offs) cols vals)
       \<and> length offs = length data + 1
       \<and> offs ! 0 = 0
       \<and> (\<forall>k<length data. sint (offs ! k) \<le> sint (offs ! Suc k))
       \<and> sint (offs ! length data) = int (length cols)
       \<and> length cols = sum_list (map (elementCount \<circ> slotField i) data)
       \<and> (vals = None \<longleftrightarrow> slotType (hs ! i) = ST_NON_SPARSE_VALUE)"
    by (intro exI[of _ offs] exI[of _ cols] exI[of _ vals]) simp
next
  show "assembleBatch [sparseHeader] sparseSamples
       = Inr [emptyArgument\<lparr>arg_value := Some (CpuSparseMatrix 3 10
                [Some 0, Some 1, Some 1, Some 3] [Some 5, Some 2, Some 7] None)\<rparr>]"
    by code_simp
qed

theorem C7_witness:
  "assembleBatch [sparseValueHeader] sparseValueSamples
     = Inr [emptyArgument\<lparr>arg_value := Some (CpuSparseMatrix 3 10
              [Some 0, Some 1, Some 1, Some 3] [Some 5, Some 2, Some 7]
              (Some [Some 1, Some 2, Some 3]))\<rparr>]
   \<and> (0 :: nat) < length [sparseValueHeader]
   \<and> slotType ([sparseValueHeader] ! 0) = ST_SPARSE_VALUE
   \<and> seqType ([sparseValueHeader] ! 0) = SQT_NONE
   \<and> sum_list (map (elementCount \<circ> slotField 0) sparseValueSamples) = 3
   \<and> (\<exists>offs cols vals.
       arg_value ([emptyArgument\<lparr>arg_value := Some (CpuSparseMatrix 3 10
              [Some 0, Some 1, Some 1, Some 3] [Some 5, Some 2, Some 7]
              (Some [Some 1, Some 2, Some 3]))\<rparr>] ! 0)
         = Some (CpuSparseMatrix (length sparseValueSamples) (dim ([sparseValueHeader] ! 0))
             (map Some offs) cols vals)
       \<and> length offs = length sparseValueSamples + 1
       \<and> offs ! 0 = 0
       \<and> (\<forall>k<length sparseValueSamples. sint (offs ! k) \<le> sint (offs ! Suc k))
       \<and> sint (offs ! length sparseValueSamples) = int (length cols)
       \<and> length cols = sum_list (map (elementCount \<circ> slotField 0) sparseValueSamples)
       \<and> (vals = None \<longleftrightarrow> slotType ([sparseValueHeader] ! 0) = ST_NON_SPARSE_VALUE))"
proof -
  have e: "assembleBatch [sparseValueHeader] sparseValueSamples
     = Inr [emptyArgument\<lparr>arg_value := Some (CpuSparseMatrix 3 10
              [Some 0, Some 1, Some 1, Some 3] [Some 5, Some 2, Some 7]
              (Some [Some 1, Some 2, Some 3]))\<rparr>]"
    by code_simp
  have i: "(0 :: nat) < length [sparseValueHeader]"
    by simp
  have t: "slotType ([sparseValueHeader] ! 0) = ST_SPARSE_VALUE"
    "seqType ([sparseValueHeader] ! 0) = SQT_NONE"
    by (simp_all add: sparseValueHeader_def)
  have n: "sum_list (map (elementCount \<circ> slotField 0) sparseValueSamples) = 3"
    by code_simp
  have fit: "sum_list (map (elementCount \<circ> slotField 0) sparseValueSamples) < 2 ^ 31"
    using n by simp
  note th = C7_sparse_row_offsets[of "[sparseValueHeader]" sparseValueSamples
      "[emptyArgument\<lparr>arg_value := Some (CpuSparseMatrix 3 10
              [Some 0, Some 1, Some 1, Some 3] [Some 5, Some 2, Some 7]
              (Some [Some 1, Some 2, Some 3]))\<rparr>]" 0, THEN conjunct1]
  from e i t fit show ?thesis
    by (intro conjI mp[OF th] disjI2 n)
qed

text \<open>
  Claim C8. Slot \<open>i\<close> of a batch is a sequence or sub-sequence slot, and the batch is
  assembled from \<open>K\<close> samples whose innermost elements number less than \<open>2\<^sup>3\<^sup>1\<close>
  in all (the offsets are C ints). Then the sequence offsets are all written, there are
  \<open>K + 1\<close> of them, the first is 0, they do not decrease, and the last is the total
  number of innermost elements: the timesteps of the samples, or for a sub-sequence slot
  the timesteps of all their sub-sequences.
\<close>

theorem C8_sequence_offsets:
  "assembleBatch hs data = Inr args \<and> i < length hs
     \<and> (seqType (hs ! i) = SQT_SEQ \<or> seqType (hs ! i) = SQT_SUBSEQ)
     \<and> sum_list (map (innerCount (seqType (hs ! i)) \<circ> slotField i) data) < 2 ^ 31 \<longrightarrow>
   (\<exists>offs.
      sequenceStartPositions (args ! i) = Some (map Some offs)
      \<and> length offs = length data + 1
      \<and> offs ! 0 = 0
      \<and> (\<forall>k<length data. sint (offs ! k) \<le> sint (offs ! Suc k))
      \<and> sint (last offs)
          = int (sum_list (map (innerCount (seqType (hs ! i)) \<circ> slotField i) data)))"
proof
  assume h: "assembleBatch hs data = Inr args \<and> i < length hs
     \<and> (seqType (hs ! i) = SQT_SEQ \<or> seqType (hs ! i) = SQT_SUBSEQ)
     \<and> sum_list (map (innerCount (seqType (hs ! i)) \<circ> slotField i) data) < 2 ^ 31"
  define objs where "objs = map (slotField i) data"
  define ns where "ns = map (innerCount (seqType (hs ! i))) objs"
  define offs where "offs = 0 # offsetsFrom 0 ns"
  have ns: "ns = map (innerCount (seqType (hs ! i)) \<circ> slotField i) data" "length ns = length data"
    by (simp_all add: ns_def objs_def)
  from h assembleBatch_slot[of hs data args i] obtain sc where
    c: "create (hs ! i) = Inr sc" and sl: "scanSlot sc objs = Inr (args ! i)"
    by (auto simp: objs_def)
  from create_seq[OF c] h obtain inner where
    sc: "sc = SequenceScanner inner 0 SequenceStartPositions" and
    nu: "\<not> usesField SequenceStartPositions inner" and
    g: "\<And>obj n. getSize (SequenceScanner (shape inner) 0 SequenceStartPositions) obj = Inr n
          \<Longrightarrow> n = innerCount (seqType (hs ! i)) obj"
    by blast
  have "getSeqStartPos SequenceStartPositions (args ! i)
      = Some (map Some (0 # offsetsFrom 0 (map (innerCount (seqType (hs ! i))) objs)))"
    by (rule scanSlot_seq[OF sl[unfolded sc] nu g])
  then have p: "sequenceStartPositions (args ! i) = Some (map Some offs)"
    by (simp add: getSeqStartPos_def offs_def ns_def)
  from h have fit: "sum_list ns < 2 ^ 31"
    by (simp add: ns)
  have "last offs = offs ! (length offs - 1)"
    by (rule last_conv_nth) (simp add: offs_def)
  then have "last offs = offs ! length ns"
    by (simp add: offs_def)
  with offsets_props[OF fit offs_def] p ns
  show "\<exists>offs.
      sequenceStartPositions (args ! i) = Some (map Some offs)
      \<and> length offs = length data + 1
      \<and> offs ! 0 = 0
      \<and> (\<forall>k<length data. sint (offs ! k) \<le> sint (offs ! Suc k))
      \<and> sint (last offs)
          = int (sum_list (map (innerCount (seqType (hs ! i)) \<circ> slotField i) data))"
    by (intro exI[of _ offs]) simp
qed

theorem C8_witness:
  "assembleBatch [subSeqHeader] subSeqSamples = Inr [\<lparr> arg_value = None, arg_ids = Some [Some 5, Some 6, Some 1, Some 2, Some 7],
              sequenceStartPositions = Some [Some 0, Some 3, Some 3, Some 5],
              subSequenceStartPositions = Some [Some 0, Some 2, Some 3, Some 5] \<rparr>]
   \<and> (0 :: nat) < length [subSeqHeader]
   \<and> seqType ([subSeqHeader] ! 0) = SQT_SUBSEQ
   \<and> sum_list (map (innerCount (seqType ([subSeqHeader] ! 0)) \<circ> slotField 0) subSeqSamples) = 5
   \<and> (\<exists>offs.
      sequenceStartPositions ([\<lparr> arg_value = None, arg_ids = Some [Some 5, Some 6, Some 1, Some 2, Some 7],
              sequenceStartPositions = Some [Some 0, Some 3, Some 3, Some 5],
              subSequenceStartPositions = Some [Some 0, Some 2, Some 3, Some 5] \<rparr>] ! 0) = Some (map Some offs)
      \<and> length offs = length subSeqSamples + 1
      \<and> offs ! 0 = 0
      \<and> (\<forall>k<length subSeqSamples. sint (offs ! k) \<le> sint (offs ! Suc k))
      \<and> sint (last offs)
          = int (sum_list (map (innerCount (seqType ([subSeqHeader] ! 0)) \<circ> slotField 0)
                   subSeqSamples)))"
proof -
  have e: "assembleBatch [subSeqHeader] subSeqSamples = Inr [\<lparr> arg_value = None, arg_ids = Some [Some 5, Some 6, Some 1, Some 2, Some 7],
              sequenceStartPositions = Some [Some 0, Some 3, Some 3, Some 5],
              subSequenceStartPositions = Some [Some 0, Some 2, Some 3, Some 5] \<rparr>]"
    by code_simp
  have i: "(0 :: nat) < length [subSeqHeader]"
    by simp
  have t: "seqType ([subSeqHeader] ! 0) = SQT_SUBSEQ"
    by (simp add: subSeqHeader_def)
  have n: "sum_list (map (innerCount (seqType ([subSeqHeader] ! 0)) \<circ> slotField 0) subSeqSamples) = 5"
    by code_simp
  have fit: "sum_list (map (innerCount (seqType ([subSeqHeader] ! 0)) \<circ> slotField 0) subSeqSamples)
      < 2 ^ 31"
    using n by simp
  note th = C8_sequence_offsets[of "[subSeqHeader]" subSeqSamples
      "[\<lparr> arg_value = None, arg_ids = Some [Some 5, Some 6, Some 1, Some 2, Some 7],
              sequenceStartPositions = Some [Some 0, Some 3, Some 3, Some 5],
              subSequenceStartPositions = Some [Some 0, Some 2, Some 3, Some 5] \<rparr>]" 0]
  from e i t fit show ?thesis
    by (intro conjI mp[OF th] disjI2 n)
qed

text \<open>
  Claim C5, amended. A pass starts with \<^verbatim>\<open>reset\<close>; then the loading thread and the
  caller take their steps in any order. Provided the samples of the pass weigh less than
  \<open>2\<^sup>6\<^sup>4\<close> in all, so that the \<^verbatim>\<open>size_t\<close> arithmetic of \<^verbatim>\<open>poolActualSize_\<close>
  does not wrap: in every state reached, strict mode keeps \<^verbatim>\<open>poolActualSize_\<close> at or
  below the capacity; in lenient mode it is at or below the capacity, or exceeds it by
  less than the weight of one sample that has been pushed (it is in the pool, or among
  the samples drawn in the call under way).
\<close>

theorem C5_capacity:
  assumes "reset cfg s0 = Inr s" and "run cfg acts (startProtocol s) = Next p"
    and "passWeight cfg < 2 ^ 64"
  shows "(\<not> canOverBatchSize cfg \<longrightarrow> poolActualSize (prov p) \<le> poolSize cfg)
    \<and> (canOverBatchSize cfg \<longrightarrow>
         poolActualSize (prov p) \<le> poolSize cfg
         \<or> (\<exists>h \<in> set (dataPool (prov p) @ drawn (caller p)).
               unat (poolActualSize (prov p))
                 < unat (poolSize cfg) + unat (weightVal (calcBatchSize cfg) h)))"
proof -
  from inv_start[OF assms(1)] inv_run[OF assms(2,3)] have "capInv cfg p"
    by blast
  then show ?thesis
    by (auto simp: capInv_def split: if_splits)
qed

theorem C5_witness:
  "reset exampleConfig freshProvider = Inr (prov exampleStart)
   \<and> run exampleConfig (replicate 11 (Load 0)) (startProtocol (prov exampleStart)) = Next exampleFull
   \<and> passWeight exampleConfig = 6 \<and> \<not> canOverBatchSize exampleConfig
   \<and> poolActualSize (prov exampleFull) \<le> poolSize exampleConfig
   \<and> reset lenientConfig freshProvider = Inr (prov lenientStart)
   \<and> run lenientConfig (replicate 6 (Load 0)) (startProtocol (prov lenientStart)) = Next lenientOver
   \<and> passWeight lenientConfig = 8 \<and> canOverBatchSize lenientConfig
   \<and> \<not> poolActualSize (prov lenientOver) \<le> poolSize lenientConfig
   \<and> (\<exists>h \<in> set (dataPool (prov lenientOver) @ drawn (caller lenientOver)).
         unat (poolActualSize (prov lenientOver))
           < unat (poolSize lenientConfig) + unat (weightVal (calcBatchSize lenientConfig) h))"
proof -
  have r1: "reset exampleConfig freshProvider = Inr (prov exampleStart)"
    by code_simp
  have e1: "run exampleConfig (replicate 11 (Load 0)) (startProtocol (prov exampleStart))
      = Next exampleFull"
    by code_simp
  have w1: "passWeight exampleConfig = 6"
    by code_simp
  have m1: "\<not> canOverBatchSize exampleConfig"
    by (simp add: exampleConfig_def)
  have r2: "reset lenientConfig freshProvider = Inr (prov lenientStart)"
    by code_simp
  have e2: "run lenientConfig (replicate 6 (Load 0)) (startProtocol (prov lenientStart))
      = Next lenientOver"
    by code_simp
  have w2: "passWeight lenientConfig = 8"
    by code_simp
  have m2: "canOverBatchSize lenientConfig"
    by (simp add: lenientConfig_def)
  have o2: "\<not> poolActualSize (prov lenientOver) \<le> poolSize lenientConfig"
    by (simp add: lenientOver_def lenientConfig_def)
  have f1: "passWeight exampleConfig < 2 ^ 64" and f2: "passWeight lenientConfig < 2 ^ 64"
    using w1 w2 by simp_all
  from C5_capacity[OF r1 e1 f1] m1
  have c1: "poolActualSize (prov exampleFull) \<le> poolSize exampleConfig"
    by blast
  from C5_capacity[OF r2 e2 f2] m2 o2
  have c2: "\<exists>h \<in> set (dataPool (prov lenientOver) @ drawn (caller lenientOver)).
         unat (poolActualSize (prov lenientOver))
           < unat (poolSize lenientConfig) + unat (weightVal (calcBatchSize lenientConfig) h)"
    by blast
  from r1 e1 w1 m1 c1 r2 e2 w2 m2 o2 c2 show ?thesis
    by blast
qed

text \<open>
  Claim C5 as stated holds in every reachable state, whatever the samples weigh. With
  capacity 4 in strict mode and a weigher that returns 1 for the first sample and -1 for
  the second, the second weight is \<open>2\<^sup>6\<^sup>4 - 1\<close> as a \<^verbatim>\<open>size_t\<close>; the sum
  \<open>1 + (2\<^sup>6\<^sup>4 - 1)\<close> of line 359 wraps to 0, which is below 4, so the sample is
  pushed and the counter is 0. A call of size 1 then draws the first sample and leaves
  the counter at \<open>0 - 1 = 2\<^sup>6\<^sup>4 - 1\<close>, above the capacity.
\<close>

theorem C5_counterexample:
  "reset wrapConfig freshProvider = Inr wrapStart
   \<and> run wrapConfig wrapSchedule (startProtocol wrapStart) = Next wrapEnd
   \<and> \<not> canOverBatchSize wrapConfig
   \<and> poolSize wrapConfig = 4
   \<and> poolActualSize (prov wrapEnd) = 18446744073709551615
   \<and> poolSize wrapConfig < poolActualSize (prov wrapEnd)"
  by code_simp

text \<open>
  Claim C3, amended. A push of a sample with weight \<open>w\<close> is blocked exactly while the
  predicate of the wait is false: in strict mode \<open>actualWeight + w < capacity\<close> (the sum
  in \<^verbatim>\<open>size_t\<close> arithmetic), in lenient mode \<open>actualWeight < capacity\<close>. Once the
  predicate holds, the thread passes the wait and then appends the sample to the pool
  and adds \<open>w\<close> to \<^verbatim>\<open>poolActualSize_\<close>.
\<close>

theorem C3_push:
  assumes "loadThread (prov p) = Some (Waiting d w)"
  shows "(step cfg (Load r) p = Blocked \<longleftrightarrow>
            \<not> (if canOverBatchSize cfg then poolActualSize (prov p) < poolSize cfg
               else poolActualSize (prov p) + w < poolSize cfg))
    \<and> ((if canOverBatchSize cfg then poolActualSize (prov p) < poolSize cfg
         else poolActualSize (prov p) + w < poolSize cfg) \<longrightarrow>
        run cfg [Load r, Load r'] p
          = Next (p\<lparr>prov := (prov p)\<lparr>poolActualSize := poolActualSize (prov p) + w,
                    dataPool := dataPool (prov p) @ [Some d],
                    loadThread := Some AtLoopHead\<rparr>\<rparr>))"
  using assms
  by (auto simp: step_def loadThreadStep_def pushReady_def)

theorem C3_witness:
  "loadThread (prov exampleWaiting) = Some (Waiting (PySeq [PyInt 11]) 1)
   \<and> \<not> canOverBatchSize exampleConfig
   \<and> poolActualSize (prov exampleWaiting) + 1 < poolSize exampleConfig
   \<and> step exampleConfig (Load 0) exampleWaiting \<noteq> Blocked
   \<and> run exampleConfig [Load 0, Load 0] exampleWaiting
       = Next (exampleWaiting\<lparr>prov := (prov exampleWaiting)\<lparr>
                 poolActualSize := poolActualSize (prov exampleWaiting) + 1,
                 dataPool := dataPool (prov exampleWaiting) @ [Some (PySeq [PyInt 11])],
                 loadThread := Some AtLoopHead\<rparr>\<rparr>)"
proof -
  have l: "loadThread (prov exampleWaiting) = Some (Waiting (PySeq [PyInt 11]) 1)"
    by (simp add: exampleWaiting_def)
  have m: "\<not> canOverBatchSize exampleConfig"
    by (simp add: exampleConfig_def)
  have q: "poolActualSize (prov exampleWaiting) + 1 < poolSize exampleConfig"
    by (simp add: exampleWaiting_def exampleConfig_def)
  from C3_push[OF l, of exampleConfig 0 0] l m q show ?thesis
    by simp
qed

text \<open>
  Claim C3 as stated lets a strict push through as soon as
  \<open>actualWeight + w \<le> capacity\<close>. With capacity 4, three samples of weight 1 in the pool
  and a fourth of weight 1 held by the loading thread, \<open>3 + 1 \<le> 4\<close> holds and the push is
  blocked.
\<close>

theorem C3_counterexample:
  "run exampleConfig (replicate 11 (Load 0)) exampleStart = Next exampleFull
   \<and> loadThread (prov exampleFull) = Some (Waiting (PySeq [PyInt 21]) 1)
   \<and> \<not> canOverBatchSize exampleConfig
   \<and> poolActualSize (prov exampleFull) + 1 \<le> poolSize exampleConfig
   \<and> step exampleConfig (Load 0) exampleFull = Blocked"
  by code_simp

text \<open>
  Claim C9. Without shuffling the index sampler returns 0, and a draw takes the samples
  from the front of the pool whatever \<^verbatim>\<open>rand()\<close> would return. Two runs of an
  unshuffled provider over the same generator outputs that make the same calls, under
  any two schedules of the loading thread and the caller, return the same batches in the
  same order as far as both have come (the weight of a pass is assumed to fit
  \<^verbatim>\<open>size_t\<close>). With capacity 4 and two generators of three samples of weight 1,
  every schedule with four calls of size 2 returns, as far as it comes, the first two
  samples of the first file, then the next two samples in the order of the files, then
  the last two, then an empty batch.
\<close>

theorem C9_unshuffled_order:
  "PositionRandom True r len = 0
   \<and> (drawSamples True calc rnd sz pool = Inr (pool', data, bsize, k) \<longrightarrow> pool = data @ pool')
   \<and> (skipShuffle cfg \<and> reset cfg s0 = Inr s \<and> loadThread s \<noteq> None
        \<and> passWeight cfg < 2 ^ 64
        \<and> run cfg acts1 (startProtocol s) = Next p1
        \<and> run cfg acts2 (startProtocol s) = Next p2
        \<and> calls acts1 = calls acts2
        \<and> length (returned p1) \<le> length (returned p2) \<longrightarrow>
      returned p1 = take (length (returned p1)) (returned p2))
   \<and> (run exampleConfig acts exampleStart = Next p \<and> calls acts = [2, 2, 2, 2] \<longrightarrow>
      returned p = take (length (returned p)) exampleBatches)"
proof (intro conjI impI)
  show "PositionRandom True r len = 0"
    by simp
next
  assume "drawSamples True calc rnd sz pool = Inr (pool', data, bsize, k)"
  from drawLoop_result[OF this[unfolded drawSamples_def]] show "pool = data @ pool'"
    by auto
next
  assume h: "skipShuffle cfg \<and> reset cfg s0 = Inr s \<and> loadThread s \<noteq> None
        \<and> passWeight cfg < 2 ^ 64
        \<and> run cfg acts1 (startProtocol s) = Next p1
        \<and> run cfg acts2 (startProtocol s) = Next p2
        \<and> calls acts1 = calls acts2
        \<and> length (returned p1) \<le> length (returned p2)"
  define E where "E = expectedBatches (calcBatchSize cfg) (calls acts1) (stream cfg)"
  from h returned_prefix[of cfg s0 s acts1 p1] have r1: "returned p1 = take (length (returned p1)) E"
    by (simp add: E_def)
  from h returned_prefix[of cfg s0 s acts2 p2] have r2: "returned p2 = take (length (returned p2)) E"
    by (simp add: E_def)
  from h have "take (length (returned p1)) (take (length (returned p2)) E)
      = take (length (returned p1)) E"
    by (simp add: min_def)
  with r1 r2 show "returned p1 = take (length (returned p1)) (returned p2)"
    by metis
next
  assume h: "run exampleConfig acts exampleStart = Next p \<and> calls acts = [2, 2, 2, 2]"
  have r: "reset exampleConfig freshProvider = Inr (prov exampleStart)"
    by code_simp
  have st: "startProtocol (prov exampleStart) = exampleStart"
    by code_simp
  have "passWeight exampleConfig = 6"
    by code_simp
  then have w: "passWeight exampleConfig < 2 ^ 64"
    by simp
  have e: "expectedBatches (calcBatchSize exampleConfig) [2, 2, 2, 2] (stream exampleConfig)
      = exampleBatches"
    by code_simp
  have l: "loadThread (prov exampleStart) \<noteq> None"
    by (simp add: exampleStart_def)
  have sk: "skipShuffle exampleConfig"
    by (simp add: exampleConfig_def)
  from h st have ru: "run exampleConfig acts (startProtocol (prov exampleStart)) = Next p"
    by simp
  from h e have e': "expectedBatches (calcBatchSize exampleConfig) (calls acts) (stream exampleConfig)
      = exampleBatches"
    by simp
  show "returned p = take (length (returned p)) exampleBatches"
    using returned_prefix[OF r l sk w ru] unfolding e' .
qed

theorem C9_witness:
  "drawSamples True None rndCount 2 [sample 11, sample 12, sample 13]
     = Inr ([sample 13], [sample 11, sample 12], 2, 0)
   \<and> [sample 11, sample 12, sample 13] = [sample 11, sample 12] @ [sample 13]
   \<and> skipShuffle exampleConfig
   \<and> reset exampleConfig freshProvider = Inr (prov exampleStart)
   \<and> loadThread (prov exampleStart) \<noteq> None
   \<and> passWeight exampleConfig = 6
   \<and> run exampleConfig scheduleB (startProtocol (prov exampleStart)) = Next exampleDoneB
   \<and> run exampleConfig scheduleA (startProtocol (prov exampleStart)) = Next exampleDoneA
   \<and> calls scheduleB = calls scheduleA
   \<and> length (returned exampleDoneB) \<le> length (returned exampleDoneA)
   \<and> returned exampleDoneB = take (length (returned exampleDoneB)) (returned exampleDoneA)
   \<and> run exampleConfig scheduleA exampleStart = Next exampleDoneA
   \<and> calls scheduleA = [2, 2, 2, 2]
   \<and> returned exampleDoneA = take (length (returned exampleDoneA)) exampleBatches
   \<and> returned exampleDoneA = exampleBatches"
proof -
  have d: "drawSamples True None rndCount 2 [sample 11, sample 12, sample 13]
     = Inr ([sample 13], [sample 11, sample 12], 2, 0)"
    by code_simp
  have sk: "skipShuffle exampleConfig"
    by (simp add: exampleConfig_def)
  have r: "reset exampleConfig freshProvider = Inr (prov exampleStart)"
    by code_simp
  have l: "loadThread (prov exampleStart) \<noteq> None"
    by (simp add: exampleStart_def)
  have w: "passWeight exampleConfig = 6"
    by code_simp
  then have w': "passWeight exampleConfig < 2 ^ 64"
    by simp
  have st: "startProtocol (prov exampleStart) = exampleStart"
    by code_simp
  have a: "run exampleConfig scheduleA exampleStart = Next exampleDoneA"
    by code_simp
  have b: "run exampleConfig scheduleB exampleStart = Next exampleDoneB"
    by code_simp
  have ca: "calls scheduleA = [2, 2, 2, 2]" and cb: "calls scheduleB = calls scheduleA"
    by code_simp+
  have le: "length (returned exampleDoneB) \<le> length (returned exampleDoneA)"
    by (simp add: exampleDoneA_def exampleDoneB_def exampleBatches_def)
  have full: "returned exampleDoneA = exampleBatches"
    by (simp add: exampleDoneA_def)
  note th = C9_unshuffled_order[of 0 0 None rndCount 2 "[sample 11, sample 12, sample 13]"
      "[sample 13]" "[sample 11, sample 12]" 2 0 exampleConfig freshProvider "prov exampleStart"
      scheduleB exampleDoneB scheduleA exampleDoneA scheduleA exampleDoneA]
  from th d have c1: "[sample 11, sample 12, sample 13] = [sample 11, sample 12] @ [sample 13]"
    by blast
  from a b st have a': "run exampleConfig scheduleA (startProtocol (prov exampleStart)) = Next exampleDoneA"
    and b': "run exampleConfig scheduleB (startProtocol (prov exampleStart)) = Next exampleDoneB"
    by simp_all
  from th sk r l w' a' b' cb le
  have c2: "returned exampleDoneB = take (length (returned exampleDoneB)) (returned exampleDoneA)"
    by blast
  from th a ca
  have c3: "returned exampleDoneA = take (length (returned exampleDoneA)) exampleBatches"
    by blast
  from d c1 sk r l w a' b' cb le c2 a ca c3 full show ?thesis
    by blast
qed

text \<open>
  Claim C6, amended. Take a provider with the cache-one-pass strategy whose first pass is
  over: the replay buffer is empty, the collected buffer holds the samples \<open>D\<close> that
  were handed out, at least one, and the loading thread has ended. Then
  \<^verbatim>\<open>reset\<close> moves \<open>D\<close> to the replay buffer, starts no loading thread and
  leaves no generator to call, so no step of a loading thread is possible. Calling
  \<^verbatim>\<open>getNextBatch\<close> with a positive size until it returns 0 (\<open>drainPass\<close>),
  with any random numbers, then hands out samples of total weight the weight of \<open>D\<close>,
  the number of samples of \<open>D\<close> under the default weight; the collected buffer ends up
  holding the samples of \<open>D\<close> again, each as often as before, in the order they were
  drawn, and still no loading thread exists. The samples are assumed to have non-zero
  weight, their total weight to fit \<^verbatim>\<open>size_t\<close>, and no batch of the pass to be
  fatal to assemble.
\<close>

theorem C6_replay:
  assumes c: "cache s1 = CacheOnePassInMemory [] D" and ne: "D \<noteq> []"
    and l: "loadThread s1 = None \<or> loadThread s1 = Some Ended"
    and sz: "0 < sint sz"
    and nz: "\<forall>h\<in>set D. weightVal (calcBatchSize cfg) h \<noteq> 0"
    and fit: "poolWeight (calcBatchSize cfg) D < 2 ^ 64"
  shows "\<exists>s2. reset cfg s1 = Inr s2
    \<and> loadThread s2 = None \<and> callingContexts s2 = [] \<and> cache s2 = CacheOnePassInMemory D []
    \<and> (\<forall>r. loadThreadStep cfg r s2 = Blocked)
    \<and> (\<forall>rs s3. drainPass cfg rnds 0 sz s2 = Inr (rs, s3) \<longrightarrow>
          loadThread s3 = None \<and> callingContexts s3 = []
          \<and> (\<forall>r. loadThreadStep cfg r s3 = Blocked)
          \<and> (\<exists>D'. cache s3 = CacheOnePassInMemory [] D' \<and> mset D' = mset D
                \<and> length D' = length D)
          \<and> sum_list (map unat rs) = poolWeight (calcBatchSize cfg) D)"
proof -
  define s2 where "s2 = s1\<lparr>loadThread := None, callingContexts := [], dataPool := [],
      poolActualSize := 0, exit_flag := False, cache := CacheOnePassInMemory D []\<rparr>"
  have r: "reset cfg s1 = Inr s2"
    using c ne l by (auto simp: reset_def resetImpl_def s2_def)
  have f: "loadThread s2 = None" "callingContexts s2 = []" "cache s2 = CacheOnePassInMemory D []"
    by (simp_all add: s2_def)
  have "loadThread s3 = None \<and> callingContexts s3 = []
          \<and> (\<forall>r. loadThreadStep cfg r s3 = Blocked)
          \<and> (\<exists>D'. cache s3 = CacheOnePassInMemory [] D' \<and> mset D' = mset D
                \<and> length D' = length D)
          \<and> sum_list (map unat rs) = poolWeight (calcBatchSize cfg) D"
    if d: "drainPass cfg rnds 0 sz s2 = Inr (rs, s3)" for rs s3
  proof -
    from drain_replay[OF d f(1,3) sz nz fit] f(2) obtain D' where
      i: "loadThread s3 = None" "callingContexts s3 = []"
        "cache s3 = CacheOnePassInMemory [] D'" "mset D' = mset D"
        "sum_list (map unat rs) = poolWeight (calcBatchSize cfg) D"
      by auto
    from i(4) have "length D' = length D"
      by (rule mset_eq_length)
    with i loadThreadStep_no_thread[OF i(1)] show ?thesis
      by blast
  qed
  with r f loadThreadStep_no_thread[OF f(1)] show ?thesis
    by blast
qed

theorem C6_witness:
  "cache passedState = CacheOnePassInMemory [] [sample 11, sample 12, sample 21]
   \<and> loadThread passedState = Some Ended
   \<and> 0 < sint (2 :: size_t)
   \<and> weightVal (calcBatchSize shuffleConfig) (sample 11) = 1
   \<and> weightVal (calcBatchSize shuffleConfig) (sample 12) = 1
   \<and> weightVal (calcBatchSize shuffleConfig) (sample 21) = 1
   \<and> poolWeight (calcBatchSize shuffleConfig) [sample 11, sample 12, sample 21] = 3
   \<and> reset shuffleConfig passedState = Inr replayStart
   \<and> loadThread replayStart = None
   \<and> callingContexts replayStart = []
   \<and> cache replayStart = CacheOnePassInMemory [sample 11, sample 12, sample 21] []
   \<and> loadThreadStep shuffleConfig 0 replayStart = Blocked
   \<and> drainPass shuffleConfig rndEach 0 2 replayStart = Inr ([2, 1], replayEnd)
   \<and> loadThread replayEnd = None
   \<and> callingContexts replayEnd = []
   \<and> loadThreadStep shuffleConfig 0 replayEnd = Blocked
   \<and> cache replayEnd = CacheOnePassInMemory [] [sample 12, sample 11, sample 21]
   \<and> mset [sample 12, sample 11, sample 21] = mset [sample 11, sample 12, sample 21]
   \<and> length [sample 12, sample 11, sample 21] = length [sample 11, sample 12, sample 21]
   \<and> sum_list (map unat [2, 1 :: size_t]) = 3"
proof -
  have c: "cache passedState = CacheOnePassInMemory [] [sample 11, sample 12, sample 21]"
    by (simp add: passedState_def)
  have l: "loadThread passedState = Some Ended"
    by (simp add: passedState_def)
  have sz: "0 < sint (2 :: size_t)"
    by simp
  have w: "weightVal (calcBatchSize shuffleConfig) (sample 11) = 1"
    "weightVal (calcBatchSize shuffleConfig) (sample 12) = 1"
    "weightVal (calcBatchSize shuffleConfig) (sample 21) = 1"
    by code_simp+
  have pw: "poolWeight (calcBatchSize shuffleConfig) [sample 11, sample 12, sample 21] = 3"
    by code_simp
  have r: "reset shuffleConfig passedState = Inr replayStart"
    by code_simp
  have d: "drainPass shuffleConfig rndEach 0 2 replayStart = Inr ([2, 1], replayEnd)"
    by code_simp
  have e: "cache replayEnd = CacheOnePassInMemory [] [sample 12, sample 11, sample 21]"
    by (simp add: replayEnd_def)
  have nz: "\<forall>h\<in>set [sample 11, sample 12, sample 21].
      weightVal (calcBatchSize shuffleConfig) h \<noteq> 0"
    using w by simp
  have fit: "poolWeight (calcBatchSize shuffleConfig) [sample 11, sample 12, sample 21] < 2 ^ 64"
    using pw by simp
  from C6_replay[OF c _ disjI2[OF l] sz nz fit, of rndEach] r d e
  have "loadThread replayStart = None \<and> callingContexts replayStart = []
    \<and> cache replayStart = CacheOnePassInMemory [sample 11, sample 12, sample 21] []
    \<and> loadThreadStep shuffleConfig 0 replayStart = Blocked
    \<and> loadThread replayEnd = None \<and> callingContexts replayEnd = []
    \<and> loadThreadStep shuffleConfig 0 replayEnd = Blocked
    \<and> mset [sample 12, sample 11, sample 21] = mset [sample 11, sample 12, sample 21]
    \<and> length [sample 12, sample 11, sample 21] = length [sample 11, sample 12, sample 21]
    \<and> sum_list (map unat [2, 1 :: size_t]) = 3"
    using pw by auto
  with c l sz w pw r d e show ?thesis
    by blast
qed

text \<open>
  Claim C6 as stated covers a first pass that handed out nothing and a retrieval with
  requests of size 0. A provider whose only file yields nothing completes its first pass
  with both buffers empty; \<^verbatim>\<open>CacheOnePassInMemory::reset\<close> then returns true, and
  \<^verbatim>\<open>reset\<close> starts a loading thread that calls the generator again. And after a
  first pass of three samples, a request of size 0 returns 0 at once with the three
  samples still in the replay buffer, so the retrieval ends having handed out none.
\<close>

theorem C6_counterexample:
  "PyDataProvider2 CACHE_PASS_IN_MEM 7 True = Inr emptyFresh
   \<and> reset emptyConfig emptyFresh = Inr emptyStarted
   \<and> run emptyConfig [Load 0, Load 0, Call 2, Pull 0, Pull 0, Pull 0] (startProtocol emptyStarted)
       = Next \<lparr> prov = emptyPassed, caller = Idle, returned = [(0, [])] \<rparr>
   \<and> cache emptyPassed = CacheOnePassInMemory [] []
   \<and> reset emptyConfig emptyPassed = Inr emptyStarted
   \<and> loadThread emptyStarted = Some AtLoopHead
   \<and> callingContexts emptyStarted = generators emptyConfig
   \<and> reset shuffleConfig passedState = Inr replayStart
   \<and> drainPass shuffleConfig rndEach 0 0 replayStart = Inr ([], replayStart)
   \<and> cache replayStart = CacheOnePassInMemory [sample 11, sample 12, sample 21] []"
  by code_simp

end
